theory Spec2Isabelle
  imports Complex_Main "HOL-Library.Word" "HOL-Library.Log_Nat"
begin

unbundle bit_operations_syntax

section \<open>Sound-effect keys\<close>

text \<open>
  The exceptions of the key conversions (\<open>std::invalid_argument\<close>), with the offending
  value in place of the message text; a failed \<open>cata_assert\<close>; and the undefined
  behaviours the code can reach: an access outside a buffer or vector, an overflowing
  \<open>int\<close> product and the conversion of a float outside the target integer type.
\<close>

datatype error =
    Unknown_Season string
  | Unknown_In_Or_Out int
  | Unknown_Time_Of_Day int
  | Out_Of_Bounds
  | Assertion_Failed
  | Int_Overflow
  | Float_To_Int_Out_Of_Range


record sound_effect =
  volume :: int
  resource_id :: nat

datatype sfx_season = NONE | SPRING | SUMMER | AUTUMN | WINTER

definition season_from_string :: "string \<Rightarrow> error + sfx_season" where
  "season_from_string str =
     (if str = [] then Inr NONE
      else if str = ''spring'' then Inr SPRING
      else if str = ''summer'' then Inr SUMMER
      else if str = ''autumn'' then Inr AUTUMN
      else if str = ''winter'' then Inr WINTER
      else Inl (Unknown_Season str))"

datatype sfx_in_or_out = EITHER | OUTDOORS | INDOORS

text \<open>\<open>COUNT\<close> is 3 in both enumerations; the cast maps 0, 1, 2 to the enumerators in order.\<close>

definition in_or_out_from_int :: "int \<Rightarrow> error + sfx_in_or_out" where
  "in_or_out_from_int val =
     (let adjusted = val + 1
      in if adjusted \<ge> 3 \<or> adjusted < 0 then Inl (Unknown_In_Or_Out val)
         else if adjusted = 0 then Inr EITHER
         else if adjusted = 1 then Inr OUTDOORS
         else Inr INDOORS)"

datatype sfx_time_of_day = ANY | DAYTIME | NIGHTTIME

definition tod_from_int :: "int \<Rightarrow> error + sfx_time_of_day" where
  "tod_from_int val =
     (let adjusted = val + 1
      in if adjusted \<ge> 3 \<or> adjusted < 0 then Inl (Unknown_Time_Of_Day val)
         else if adjusted = 0 then Inr ANY
         else if adjusted = 1 then Inr DAYTIME
         else Inr NIGHTTIME)"

definition bool_or :: "bool option \<Rightarrow> int \<Rightarrow> int" where
  "bool_or opt defl = (case opt of Some b \<Rightarrow> (if b then 1 else 0) | None \<Rightarrow> defl)"

section \<open>The five-level map\<close>

type_synonym tod_map = "sfx_time_of_day \<rightharpoonup> sound_effect list"
type_synonym in_or_out_map = "sfx_in_or_out \<rightharpoonup> tod_map"
type_synonym season_map = "sfx_season \<rightharpoonup> in_or_out_map"
type_synonym variant_map = "string \<rightharpoonup> season_map"
type_synonym effects_map = "string \<rightharpoonup> variant_map"

text \<open>
  The variadic templates, one definition per number of keys. \<open>nullptr\<close> is \<open>None\<close>.
\<close>

definition find_sfx_1 :: "('k \<rightharpoonup> 'v) \<Rightarrow> 'k \<Rightarrow> 'v option" where
  "find_sfx_1 c k = (case c k of None \<Rightarrow> None | Some v \<Rightarrow> Some v)"

definition find_sfx_2 :: "('k \<rightharpoonup> 'l \<rightharpoonup> 'v) \<Rightarrow> 'k \<Rightarrow> 'l \<Rightarrow> 'v option" where
  "find_sfx_2 c k k2 = (case c k of None \<Rightarrow> None | Some c2 \<Rightarrow> find_sfx_1 c2 k2)"

definition find_sfx_3 :: "('k \<rightharpoonup> 'l \<rightharpoonup> 'm \<rightharpoonup> 'v) \<Rightarrow> 'k \<Rightarrow> 'l \<Rightarrow> 'm \<Rightarrow> 'v option" where
  "find_sfx_3 c k k2 k3 = (case c k of None \<Rightarrow> None | Some c2 \<Rightarrow> find_sfx_2 c2 k2 k3)"

definition find_sfx_4 ::
  "('k \<rightharpoonup> 'l \<rightharpoonup> 'm \<rightharpoonup> 'n \<rightharpoonup> 'v) \<Rightarrow> 'k \<Rightarrow> 'l \<Rightarrow> 'm \<Rightarrow> 'n \<Rightarrow> 'v option" where
  "find_sfx_4 c k k2 k3 k4 = (case c k of None \<Rightarrow> None | Some c2 \<Rightarrow> find_sfx_3 c2 k2 k3 k4)"

definition find_sfx_5 ::
  "('k \<rightharpoonup> 'l \<rightharpoonup> 'm \<rightharpoonup> 'n \<rightharpoonup> 'o \<rightharpoonup> 'v) \<Rightarrow> 'k \<Rightarrow> 'l \<Rightarrow> 'm \<Rightarrow> 'n \<Rightarrow> 'o \<Rightarrow> 'v option" where
  "find_sfx_5 c k k2 k3 k4 k5 =
     (case c k of None \<Rightarrow> None | Some c2 \<Rightarrow> find_sfx_4 c2 k2 k3 k4 k5)"

text \<open>
  \<open>find_closest_sfx\<close>: the iterator \<open>it\<close> is the looked-up entry; when the key is absent
  the default is looked up, and when that is absent too the result is \<open>nullptr\<close>.
\<close>

definition closest_it :: "('k \<rightharpoonup> 'v) \<Rightarrow> 'k \<Rightarrow> 'k \<Rightarrow> 'v option" where
  "closest_it c k d = (let it = c k in if it = None then c d else it)"

definition find_closest_sfx_1 :: "('k \<rightharpoonup> 'v) \<Rightarrow> 'k \<Rightarrow> 'k \<Rightarrow> 'v option" where
  "find_closest_sfx_1 c k d = (case closest_it c k d of None \<Rightarrow> None | Some v \<Rightarrow> Some v)"

definition find_closest_sfx_2 ::
  "('k \<rightharpoonup> 'l \<rightharpoonup> 'v) \<Rightarrow> 'k \<Rightarrow> 'k \<Rightarrow> 'l \<Rightarrow> 'l \<Rightarrow> 'v option" where
  "find_closest_sfx_2 c k d1 k2 d2 =
     (case closest_it c k d1 of None \<Rightarrow> None | Some c2 \<Rightarrow> find_closest_sfx_1 c2 k2 d2)"

definition find_closest_sfx_3 ::
  "('k \<rightharpoonup> 'l \<rightharpoonup> 'm \<rightharpoonup> 'v) \<Rightarrow> 'k \<Rightarrow> 'k \<Rightarrow> 'l \<Rightarrow> 'l \<Rightarrow> 'm \<Rightarrow> 'm \<Rightarrow> 'v option" where
  "find_closest_sfx_3 c k d1 k2 d2 k3 d3 =
     (case closest_it c k d1 of None \<Rightarrow> None
      | Some c2 \<Rightarrow> find_closest_sfx_2 c2 k2 d2 k3 d3)"

definition find_closest_sfx_4 ::
  "('k \<rightharpoonup> 'l \<rightharpoonup> 'm \<rightharpoonup> 'n \<rightharpoonup> 'v) \<Rightarrow> 'k \<Rightarrow> 'k \<Rightarrow> 'l \<Rightarrow> 'l \<Rightarrow> 'm \<Rightarrow> 'm \<Rightarrow> 'n \<Rightarrow> 'n
     \<Rightarrow> 'v option" where
  "find_closest_sfx_4 c k d1 k2 d2 k3 d3 k4 d4 =
     (case closest_it c k d1 of None \<Rightarrow> None
      | Some c2 \<Rightarrow> find_closest_sfx_3 c2 k2 d2 k3 d3 k4 d4)"

definition find_closest_sfx_5 ::
  "('k \<rightharpoonup> 'l \<rightharpoonup> 'm \<rightharpoonup> 'n \<rightharpoonup> 'o \<rightharpoonup> 'v) \<Rightarrow> 'k \<Rightarrow> 'k \<Rightarrow> 'l \<Rightarrow> 'l \<Rightarrow> 'm \<Rightarrow> 'm
     \<Rightarrow> 'n \<Rightarrow> 'n \<Rightarrow> 'o \<Rightarrow> 'o \<Rightarrow> 'v option" where
  "find_closest_sfx_5 c k d1 k2 d2 k3 d3 k4 d4 k5 d5 =
     (case closest_it c k d1 of None \<Rightarrow> None
      | Some c2 \<Rightarrow> find_closest_sfx_4 c2 k2 d2 k3 d3 k4 d4 k5 d5)"







section \<open>\<open>sfx_map\<close>\<close>

text \<open>
  The three key conversions are evaluated before the template is entered, so a throw
  leaves the map untouched and no level is probed.
\<close>

definition level_keys ::
  "string \<Rightarrow> bool option \<Rightarrow> bool option \<Rightarrow> error + (sfx_season \<times> sfx_in_or_out \<times> sfx_time_of_day)" where
  "level_keys sn ind nit =
     (case season_from_string sn of Inl e \<Rightarrow> Inl e
      | Inr s \<Rightarrow>
        (case in_or_out_from_int (bool_or ind (-1)) of Inl e \<Rightarrow> Inl e
         | Inr io \<Rightarrow>
           (case tod_from_int (bool_or nit (-1)) of Inl e \<Rightarrow> Inl e
            | Inr t \<Rightarrow> Inr (s, io, t))))"



text \<open>\<open>find( id, variant, season, is_indoors, is_night )\<close>: the lookup with fallback.\<close>

definition sfx_map_find ::
  "effects_map \<Rightarrow> string \<Rightarrow> string \<Rightarrow> string \<Rightarrow> bool option \<Rightarrow> bool option
     \<Rightarrow> error + sound_effect list option" where
  "sfx_map_find effects i v sn is_indoors is_night =
     (case level_keys sn is_indoors is_night of Inl e \<Rightarrow> Inl e
      | Inr (s, io, t) \<Rightarrow>
          Inr (find_closest_sfx_5 effects i [] v ''default'' s NONE io EITHER t ANY))"




section \<open>Reference formulations for the resolver\<close>

text \<open>
  The resolver as the specification describes it: each level has a list of candidate keys
  that are probed in order, and the levels are nested in the fixed order id, variant,
  season, indoorness, time of day. A level whose candidates are all absent ends the search.
\<close>

fun first_present :: "('k \<rightharpoonup> 'v) \<Rightarrow> 'k list \<Rightarrow> 'v option" where
  "first_present c [] = None"
| "first_present c (k # ks) = (case c k of Some v \<Rightarrow> Some v | None \<Rightarrow> first_present c ks)"

definition probe_levels ::
  "effects_map \<Rightarrow> string list \<Rightarrow> string list \<Rightarrow> sfx_season list \<Rightarrow> sfx_in_or_out list
     \<Rightarrow> sfx_time_of_day list \<Rightarrow> sound_effect list option" where
  "probe_levels effects ids variants seasons in_or_outs tods =
     Option.bind (first_present effects ids) (\<lambda>by_variant.
     Option.bind (first_present by_variant variants) (\<lambda>by_season.
     Option.bind (first_present by_season seasons) (\<lambda>by_in_or_out.
     Option.bind (first_present by_in_or_out in_or_outs) (\<lambda>by_tod.
       first_present by_tod tods))))"

text \<open>The specification's \<open>findBestMatch\<close>, in which the id is never defaulted.\<close>

definition findBestMatch_spec ::
  "effects_map \<Rightarrow> string \<Rightarrow> string \<Rightarrow> sfx_season \<Rightarrow> sfx_in_or_out \<Rightarrow> sfx_time_of_day
     \<Rightarrow> sound_effect list option" where
  "findBestMatch_spec effects i v s io t =
     probe_levels effects [i] [v, ''default''] [s, NONE] [io, EITHER] [t, ANY]"

text \<open>A map whose only entry is stored under the empty id.\<close>

definition empty_id_map :: effects_map where
  "empty_id_map =
     [[] \<mapsto> [''default'' \<mapsto> [NONE \<mapsto> [EITHER \<mapsto> [ANY \<mapsto> [\<lparr>volume = 80, resource_id = 0\<rparr>]]]]]]"

text \<open>The specification's scenario: one footstep effect under the all-default key.\<close>

definition footstep_map :: effects_map where
  "footstep_map =
     [''footstep'' \<mapsto>
        [''default'' \<mapsto> [NONE \<mapsto> [EITHER \<mapsto> [ANY \<mapsto> [\<lparr>volume = 80, resource_id = 0\<rparr>]]]]]]"

text \<open>
  The map without what is stored under one time of day, or under one indoorness: every
  innermost (respectively fourth-level) map loses that key, all else is kept.
\<close>

definition drop_tod :: "sfx_time_of_day \<Rightarrow> effects_map \<Rightarrow> effects_map" where
  "drop_tod t effects =
     (\<lambda>i. map_option (\<lambda>by_variant. \<lambda>v. map_option (\<lambda>by_season. \<lambda>s.
        map_option (\<lambda>by_in_or_out. \<lambda>io. map_option (\<lambda>by_tod. by_tod(t := None))
          (by_in_or_out io)) (by_season s)) (by_variant v)) (effects i))"

definition drop_in_or_out :: "sfx_in_or_out \<Rightarrow> effects_map \<Rightarrow> effects_map" where
  "drop_in_or_out io effects =
     (\<lambda>i. map_option (\<lambda>by_variant. \<lambda>v. map_option (\<lambda>by_season. \<lambda>s.
        map_option (\<lambda>by_in_or_out. by_in_or_out(io := None))
          (by_season s)) (by_variant v)) (effects i))"



section \<open>Single-precision floats\<close>

text \<open>
  A \<open>float\<close> is modelled by the rational it denotes. \<open>f32\<close> rounds a rational to the
  nearest number with a 24-bit significand, ties to the even significand, as every
  IEEE 754 binary32 operation rounds its exact result. The exponent is not bounded: the
  quantities of this program (sample counts, positions and their quotients) lie far
  inside the normal range, and NaN and the infinities do not arise from them.
\<close>

definition floor_log2 :: "rat \<Rightarrow> int" where
  "floor_log2 x = (if 1 \<le> x then bitlen \<lfloor>x\<rfloor> - 1 else - bitlen (\<lceil>1 / x\<rceil> - 1))"

definition round_half_even :: "rat \<Rightarrow> int" where
  "round_half_even q =
     (let f = \<lfloor>q\<rfloor>; r = q - of_int f
      in if r < 1 / 2 then f else if 1 / 2 < r then f + 1 else if even f then f else f + 1)"

definition ulp :: "rat \<Rightarrow> rat" where
  "ulp x = 2 powi (floor_log2 \<bar>x\<bar> - 23)"

definition f32 :: "rat \<Rightarrow> rat" where
  "f32 x = (if x = 0 then 0 else of_int (round_half_even (x / ulp x)) * ulp x)"

text \<open>Conversion to an integer type truncates toward zero and is undefined out of range.\<close>

definition trunc :: "rat \<Rightarrow> int" where
  "trunc x = (if 0 \<le> x then \<lfloor>x\<rfloor> else \<lceil>x\<rceil>)"

definition float_to_uint32 :: "rat \<Rightarrow> error + nat" where
  "float_to_uint32 x =
     (if 0 \<le> trunc x \<and> trunc x < 2 ^ 32 then Inr (nat (trunc x)) else Inl Float_To_Int_Out_Of_Range)"

definition float_to_int :: "rat \<Rightarrow> error + int" where
  "float_to_int x =
     (if - (2 ^ 31) \<le> trunc x \<and> trunc x < 2 ^ 31 then Inr (trunc x)
      else Inl Float_To_Int_Out_Of_Range)"

definition float_to_sint16 :: "rat \<Rightarrow> error + 16 word" where
  "float_to_sint16 x =
     (if - (2 ^ 15) \<le> trunc x \<and> trunc x < 2 ^ 15 then Inr (word_of_int (trunc x))
      else Inl Float_To_Int_Out_Of_Range)"

text \<open>\<open>fmodf\<close> is exact: the remainder of the division truncated toward zero.\<close>

definition fmodf :: "rat \<Rightarrow> rat \<Rightarrow> rat" where
  "fmodf x y = x - y * of_int (trunc (x / y))"

text \<open>
  The value of an \<open>int\<close> sum or product as the two's-complement machine computes it:
  modulo \<open>2 ^ 32\<close>, in the range of \<open>int\<close>.
\<close>

definition int_wrap :: "int \<Rightarrow> int" where
  "int_wrap x = (x + 2 ^ 31) mod 2 ^ 32 - 2 ^ 31"

text \<open>C++ integer division truncates toward zero.\<close>

definition c_div :: "int \<Rightarrow> int \<Rightarrow> int" where
  "c_div a b = (if (a < 0) = (b < 0) then \<bar>a\<bar> div \<bar>b\<bar> else - (\<bar>a\<bar> div \<bar>b\<bar>))"

section \<open>Chunks and samples\<close>

text \<open>
  \<open>Mix_Chunk\<close>: the buffer \<open>abuf\<close> holds \<open>alen\<close> bytes of interleaved stereo
  samples, signed 16-bit each (\<open>AUDIO_S16\<close>), four bytes a frame. A null \<open>abuf\<close> is the
  empty list.
\<close>

record Mix_Chunk =
  allocated :: int
  abuf :: "8 word list"
  alen :: "32 word"
  chunk_volume :: "8 word"

definition make_null_chunk :: Mix_Chunk where
  "make_null_chunk = \<lparr>allocated = 0, abuf = [], alen = 0, chunk_volume = 0\<rparr>"

text \<open>
  A chunk as the mixer hands it out: the buffer has \<open>alen\<close> bytes, and \<open>alen\<close> fits
  the \<open>int\<close> in which the mixer itself counts the bytes left to play.
\<close>

definition wf_chunk :: "Mix_Chunk \<Rightarrow> bool" where
  "wf_chunk c = (length (abuf c) = unat (alen c) \<and> unat (alen c) < 2 ^ 31)"

text \<open>\<open>memcpy\<close> of one sample from and to a byte buffer, on a little-endian host.\<close>

definition load_sample :: "8 word list \<Rightarrow> int \<Rightarrow> error + 16 word" where
  "load_sample buf off =
     (if 0 \<le> off \<and> nat off + 1 < length buf
      then Inr (word_cat (buf ! (nat off + 1)) (buf ! nat off))
      else Inl Out_Of_Bounds)"

definition store_sample :: "8 word list \<Rightarrow> int \<Rightarrow> 16 word \<Rightarrow> error + 8 word list" where
  "store_sample buf off v =
     (if 0 \<le> off \<and> nat off + 1 < length buf
      then Inr (buf[nat off := ucast v, nat off + 1 := ucast (drop_bit 8 v)])
      else Inl Out_Of_Bounds)"

text \<open>An \<open>int\<close> product; overflow is undefined.\<close>

definition int_mul :: "int \<Rightarrow> int \<Rightarrow> error + int" where
  "int_mul a b = (if - (2 ^ 31) \<le> a * b \<and> a * b < 2 ^ 31 then Inr (a * b) else Inl Int_Overflow)"

section \<open>The per-voice effect handler\<close>

record sound_effect_handler =
  audio_src :: Mix_Chunk
  active :: bool
  owns_audio :: bool
  current_sample_index :: rat
  loops_remaining :: int

text \<open>
  \<open>is_time_slowed\<close>, from the avatar's speed and moves. The product is an \<open>int\<close>
  product: for a speed of \<open>2 ^ 30\<close> and more it wraps around.
\<close>

definition is_time_slowed :: "int \<Rightarrow> int \<Rightarrow> bool" where
  "is_time_slowed avatar_speed avatar_moves =
     (int_wrap (max avatar_speed 100 * 2) < avatar_moves)"

definition sound_speed_factor :: rat where
  "sound_speed_factor = 1 / 4"

definition bytes_per_sample :: int where
  "bytes_per_sample = 4"

text \<open>
  One ear of one output frame: the two source samples (zero once \<open>loops_remaining\<close> is
  \<open>-1\<close>) and their linear interpolation.
\<close>

definition source_sample :: "sound_effect_handler \<Rightarrow> int \<Rightarrow> int \<Rightarrow> error + 16 word" where
  "source_sample handler ear_offset index =
     (if loops_remaining handler \<noteq> - 1
      then (case int_mul index bytes_per_sample of Inl e \<Rightarrow> Inl e
            | Inr off \<Rightarrow> load_sample (abuf (audio_src handler)) (ear_offset + off))
      else Inr 0)"

definition interpolate_ear :: "sound_effect_handler \<Rightarrow> int \<Rightarrow> int \<Rightarrow> int \<Rightarrow> error + 16 word" where
  "interpolate_ear handler low_index high_index ear_offset =
     (case source_sample handler ear_offset low_index of Inl e \<Rightarrow> Inl e
      | Inr low_value \<Rightarrow>
     (case source_sample handler ear_offset high_index of Inl e \<Rightarrow> Inl e
      | Inr high_value \<Rightarrow>
        (let interpolation_factor =
               f32 (current_sample_index handler - f32 (of_int low_index))
         in float_to_sint16
              (f32 (f32 (f32 (of_int (sint high_value - sint low_value)) * interpolation_factor)
                    + f32 (of_int (sint low_value)))))))"

text \<open>The body of the loop up to the write of the frame.\<close>

definition resample_frame ::
  "sound_effect_handler \<Rightarrow> 8 word list \<Rightarrow> int \<Rightarrow> int \<Rightarrow> error + 8 word list" where
  "resample_frame handler stream num_source_samples dst_index =
     (case float_to_int (of_int \<lfloor>current_sample_index handler\<rfloor>) of Inl e \<Rightarrow> Inl e
      | Inr low_index \<Rightarrow>
     (case float_to_int (of_int \<lceil>current_sample_index handler\<rceil>) of Inl e \<Rightarrow> Inl e
      | Inr ceil_index \<Rightarrow>
        (let high_index = (if ceil_index = num_source_samples then 0 else ceil_index)
         in case interpolate_ear handler low_index high_index 0 of Inl e \<Rightarrow> Inl e
            | Inr left \<Rightarrow>
           (case store_sample stream (dst_index * bytes_per_sample + 0) left of Inl e \<Rightarrow> Inl e
            | Inr stream1 \<Rightarrow>
           (case interpolate_ear handler low_index high_index 2 of Inl e \<Rightarrow> Inl e
            | Inr right \<Rightarrow> store_sample stream1 (dst_index * bytes_per_sample + 2) right)))))"

text \<open>The end of the loop body: the position advances and wraps.\<close>

definition advance_position :: "rat \<Rightarrow> int \<Rightarrow> sound_effect_handler \<Rightarrow> sound_effect_handler" where
  "advance_position playback_speed num_source_samples handler =
     (let csi = f32 (current_sample_index handler + f32 (1 * playback_speed))
      in if loops_remaining handler \<ge> 0 \<and> csi \<ge> f32 (of_int num_source_samples)
         then handler\<lparr>current_sample_index := fmodf csi (f32 (of_int num_source_samples)),
                      loops_remaining := loops_remaining handler - 1\<rparr>
         else handler\<lparr>current_sample_index := csi\<rparr>)"

function resample_loop ::
  "rat \<Rightarrow> int \<Rightarrow> int \<Rightarrow> int \<Rightarrow> sound_effect_handler \<Rightarrow> 8 word list
     \<Rightarrow> error + (sound_effect_handler \<times> 8 word list)" where
  "resample_loop playback_speed num_source_samples n_dst dst_index handler stream =
     (if dst_index < n_dst \<and> current_sample_index handler < f32 (of_int num_source_samples)
      then (case resample_frame handler stream num_source_samples dst_index of
              Inl e \<Rightarrow> Inl e
            | Inr stream' \<Rightarrow>
                resample_loop playback_speed num_source_samples n_dst (dst_index + 1)
                  (advance_position playback_speed num_source_samples handler) stream')
      else Inr (handler, stream))"
  by pat_completeness auto
termination
  by (relation "measure (\<lambda>(s, n, n_dst, dst_index, h, st). nat (n_dst - dst_index))") auto

text \<open>
  \<open>slowed_time_effect\<close>, with the avatar's speed and moves at the time of the call.
  The result is the handler and the stream as the callback leaves them, and the channels
  it asked \<open>Mix_HaltChannel\<close> to halt.
\<close>

definition slowed_time_effect ::
  "int \<Rightarrow> int \<Rightarrow> int \<Rightarrow> 8 word list \<Rightarrow> int \<Rightarrow> sound_effect_handler
     \<Rightarrow> error + (sound_effect_handler \<times> 8 word list \<times> int list)" where
  "slowed_time_effect avatar_speed avatar_moves channel stream len handler =
     (if \<not> loops_remaining handler \<ge> 0 then Inl Assertion_Failed
      else
        (let playback_speed =
               (if is_time_slowed avatar_speed avatar_moves then sound_speed_factor else 1);
             num_source_samples = int (unat (alen (audio_src handler)) div 4)
         in case resample_loop playback_speed num_source_samples (c_div len bytes_per_sample) 0
                   handler stream of
              Inl e \<Rightarrow> Inl e
            | Inr (handler', stream') \<Rightarrow>
                Inr (handler', stream',
                     if loops_remaining handler' < 0 then [channel] else [])))"

section \<open>The pitch shifter\<close>

text \<open>
  A quotient on its way to an integer: a zero divisor gives an infinity or a NaN, whose
  conversion is undefined.
\<close>

definition f32_quotient :: "rat \<Rightarrow> rat \<Rightarrow> error + rat" where
  "f32_quotient a b = (if b = 0 then Inl Float_To_Int_Out_Of_Range else Inr (f32 (a / b)))"

text \<open>\<open>( abuf[k + 1] << 8 ) | abuf[k]\<close>, stored in a \<open>Sint16\<close>; \<open>k\<close> is a \<open>Uint32\<close>.\<close>

definition byte_pair :: "8 word list \<Rightarrow> nat \<Rightarrow> error + 16 word" where
  "byte_pair buf k =
     (let hi = (k + 1) mod 2 ^ 32; lo = k mod 2 ^ 32
      in if hi < length buf \<and> lo < length buf
         then Inr (word_of_int (push_bit 8 (uint (buf ! hi)) OR uint (buf ! lo)))
         else Inl Out_Of_Bounds)"

text \<open>
  The inner loop over \<open>j\<close> from \<open>begin\<close> to \<open>end\<close> inclusive, with the two 64-bit sums
  (which sixteen-bit terms, fewer than \<open>2 ^ 32\<close> of them, cannot overflow).
\<close>

function window_sum :: "8 word list \<Rightarrow> nat \<Rightarrow> nat \<Rightarrow> int \<times> int \<Rightarrow> error + int \<times> int" where
  "window_sum buf j end_index (lt_avg, rt_avg) =
     (if j \<le> end_index
      then (case byte_pair buf (4 * j) of Inl e \<Rightarrow> Inl e
            | Inr lt \<Rightarrow>
           (case byte_pair buf (4 * j + 2) of Inl e \<Rightarrow> Inl e
            | Inr rt \<Rightarrow> window_sum buf (j + 1) end_index (lt_avg + sint lt, rt_avg + sint rt)))
      else Inr (lt_avg, rt_avg))"
  by pat_completeness auto
termination
  by (relation "measure (\<lambda>(buf, j, end_index, acc). Suc end_index - j)") auto

text \<open>The window of output frame \<open>i\<close>: \<open>begin\<close> and \<open>end\<close> after the boundary check.\<close>

definition window_bounds :: "Mix_Chunk \<Rightarrow> rat \<Rightarrow> nat \<Rightarrow> error + nat \<times> nat" where
  "window_bounds s pitch_real i =
     (case f32_quotient (f32 (of_nat i)) pitch_real of Inl e \<Rightarrow> Inl e
      | Inr b \<Rightarrow>
     (case float_to_uint32 b of Inl e \<Rightarrow> Inl e
      | Inr begin_index \<Rightarrow>
     (case f32_quotient (f32 (of_nat (i + 1))) pitch_real of Inl e \<Rightarrow> Inl e
      | Inr e \<Rightarrow>
     (case float_to_uint32 e of Inl e \<Rightarrow> Inl e
      | Inr end_index \<Rightarrow>
          Inr (begin_index,
               if end_index > 0 \<and> end_index \<ge> unat (alen s) div 4 then begin_index
               else end_index)))))"

text \<open>\<open>static_cast<Sint16>( static_cast<float>( avg ) / static_cast<float>( end - begin + 1 ) )\<close>.\<close>

definition window_mean :: "int \<Rightarrow> nat \<Rightarrow> nat \<Rightarrow> error + 16 word" where
  "window_mean avg begin_index end_index =
     (let n = (end_index + 2 ^ 32 - begin_index + 1) mod 2 ^ 32
      in case f32_quotient (f32 (of_int avg)) (f32 (of_nat n)) of Inl e \<Rightarrow> Inl e
         | Inr q \<Rightarrow> float_to_sint16 q)"

text \<open>The four bytes of output frame \<open>i\<close>.\<close>

definition pitch_shift_frame :: "Mix_Chunk \<Rightarrow> rat \<Rightarrow> nat \<Rightarrow> error + 8 word list" where
  "pitch_shift_frame s pitch_real i =
     (case window_bounds s pitch_real i of Inl e \<Rightarrow> Inl e
      | Inr (begin_index, end_index) \<Rightarrow>
     (case window_sum (abuf s) begin_index end_index (0, 0) of Inl e \<Rightarrow> Inl e
      | Inr (lt_avg, rt_avg) \<Rightarrow>
     (case window_mean lt_avg begin_index end_index of Inl e \<Rightarrow> Inl e
      | Inr lt_out \<Rightarrow>
     (case window_mean rt_avg begin_index end_index of Inl e \<Rightarrow> Inl e
      | Inr rt_out \<Rightarrow>
          Inr [ucast lt_out, ucast (drop_bit 8 lt_out), ucast rt_out, ucast (drop_bit 8 rt_out)]))))"

function pitch_shift_loop ::
  "Mix_Chunk \<Rightarrow> rat \<Rightarrow> nat \<Rightarrow> nat \<Rightarrow> 8 word list \<Rightarrow> error + 8 word list" where
  "pitch_shift_loop s pitch_real s_out i out =
     (if i < s_out
      then (case pitch_shift_frame s pitch_real i of Inl e \<Rightarrow> Inl e
            | Inr frame \<Rightarrow> pitch_shift_loop s pitch_real s_out (i + 1) (out @ frame))
      else Inr out)"
  by pat_completeness auto
termination
  by (relation "measure (\<lambda>(s, pitch_real, s_out, i, out). s_out - i)") auto

text \<open>
  \<open>do_pitch_shift\<close>. The result buffer has \<open>s_out * 4\<close> bytes in \<open>Uint32\<close> arithmetic;
  when that product wraps, the buffer is shorter than what the loop writes. Otherwise
  the loop writes every byte of it, frame after frame.
\<close>

definition do_pitch_shift :: "Mix_Chunk \<Rightarrow> rat \<Rightarrow> error + Mix_Chunk" where
  "do_pitch_shift s pitch =
     (let s_in = unat (alen s) div 4
      in case float_to_uint32 (f32 (f32 (of_nat s_in) * pitch)) of Inl e \<Rightarrow> Inl e
         | Inr s_out \<Rightarrow>
             (let pitch_real = f32 (f32 (of_nat s_out) / f32 (of_nat s_in))
              in if 2 ^ 32 \<le> s_out * 4 then Inl Out_Of_Bounds
                 else (case pitch_shift_loop s pitch_real s_out 0 [] of Inl e \<Rightarrow> Inl e
                       | Inr out \<Rightarrow>
                           Inr \<lparr>allocated = 1, abuf = out, alen = word_of_nat (s_out * 4),
                                chunk_volume = chunk_volume s\<rparr>)))"

section \<open>Resources and playback\<close>

record sound_effect_resource =
  path :: string
  chunk :: "Mix_Chunk option"

text \<open>
  What the functions below take from outside this file: the mixer's answers, the options,
  the path arithmetic of \<open>cata_path\<close>, the random choice of \<open>random_entry_ref\<close>, and
  \<open>sfx::is_channel_playing\<close>, which is declared in \<open>sounds.h\<close> and defined elsewhere.
\<close>

record environment =
  Mix_LoadWAV :: "string \<Rightarrow> Mix_Chunk option"
  join_path :: "string \<Rightarrow> string \<Rightarrow> string"
  is_channel_playing :: "int \<Rightarrow> bool"
  play_channel_result :: "int \<Rightarrow> int"
  register_effect_result :: "int \<Rightarrow> int"
  set_position_result :: "int \<Rightarrow> int"
  sound_effect_volume_option :: int
  ambient_sound_volume_option :: int
  random_entry_ref :: "sound_effect list \<Rightarrow> sound_effect"

datatype sdl_call =
    Mix_VolumeChunk int
  | Mix_FadeInChannel int rat
  | Mix_PlayChannel int
  | Mix_RegisterEffect int
  | Mix_HaltChannel int
  | Mix_SetPosition int rat
  | Delete_Handler bool

text \<open>
  The state of the file: its globals, the handlers registered with the mixer by channel,
  and the calls made to the mixer so far.
\<close>

record audio_state =
  test_mode :: bool
  sound_init_success :: bool
  sound_enabled :: bool
  current_soundpack_path :: string
  unique_paths :: "string \<rightharpoonup> nat"
  resource :: "sound_effect_resource list"
  sound_effects :: effects_map
  voices :: "int \<rightharpoonup> sound_effect_handler"
  sdl_calls :: "sdl_call list"

definition check_sound :: "audio_state \<Rightarrow> int \<Rightarrow> bool" where
  "check_sound st vol = (sound_init_success st \<and> sound_enabled st \<and> vol > 0)"

definition load_chunk :: "environment \<Rightarrow> string \<Rightarrow> Mix_Chunk" where
  "load_chunk env p = (case Mix_LoadWAV env p of None \<Rightarrow> make_null_chunk | Some result \<Rightarrow> result)"

text \<open>\<open>get_sfx_resource\<close>; the vector is indexed unchecked.\<close>

definition get_sfx_resource ::
  "environment \<Rightarrow> nat \<Rightarrow> audio_state \<Rightarrow> error + (Mix_Chunk \<times> audio_state)" where
  "get_sfx_resource env rid st =
     (if rid < length (resource st)
      then (let r = resource st ! rid
            in case chunk r of
                 Some c \<Rightarrow> Inr (c, st)
               | None \<Rightarrow>
                   (let c = load_chunk env (join_path env (current_soundpack_path st) (path r))
                    in Inr (c, st\<lparr>resource := (resource st)[rid := r\<lparr>chunk := Some c\<rparr>]\<rparr>)))
      else Inl Out_Of_Bounds)"

definition add_sfx_path :: "string \<Rightarrow> audio_state \<Rightarrow> nat \<times> audio_state" where
  "add_sfx_path p st =
     (case unique_paths st p of
        Some found \<Rightarrow> (found, st)
      | None \<Rightarrow>
          (let result = length (resource st)
           in (result,
               st\<lparr>resource := resource st @ [\<lparr>path = p, chunk = None\<rparr>],
                  unique_paths := (unique_paths st)(p \<mapsto> result)\<rparr>)))"

definition find_random_effect ::
  "environment \<Rightarrow> audio_state \<Rightarrow> string \<Rightarrow> string \<Rightarrow> string \<Rightarrow> bool option \<Rightarrow> bool option
     \<Rightarrow> error + sound_effect option" where
  "find_random_effect env st i v sn is_indoors is_night =
     (case sfx_map_find (sound_effects st) i v sn is_indoors is_night of
        Inl e \<Rightarrow> Inl e
      | Inr None \<Rightarrow> Inr None
      | Inr (Some iter) \<Rightarrow> Inr (Some (random_entry_ref env iter)))"

text \<open>
  \<open>make_audio\<close>: the new handler, the calls to the mixer in order, and the result
  \<open>failed\<close>. On failure \<open>on_finish\<close> deletes the handler at once; otherwise the mixer
  holds it for the channel.
  The volume handed to \<open>Mix_VolumeChunk\<close> is an \<open>int\<close> expression, whose products wrap
  around.
\<close>

definition make_audio ::
  "environment \<Rightarrow> int \<Rightarrow> Mix_Chunk \<Rightarrow> int \<Rightarrow> int \<Rightarrow> bool \<Rightarrow> sound_effect \<Rightarrow> rat option
     \<Rightarrow> rat option \<Rightarrow> audio_state \<Rightarrow> bool \<times> audio_state" where
  "make_audio env audioChannel src nloops vol owns effect angle fade_in_duration st =
     (let handler = \<lparr>audio_src = src, active = True, owns_audio = owns,
                     current_sample_index = 0,
                     loops_remaining = (if nloops = - 1 then 10000 else nloops)\<rparr>;
          calls1 = [Mix_VolumeChunk
                      (c_div (int_wrap (int_wrap (volume effect * sound_effect_volume_option env)
                                               * vol)) (100 * 100)),
                    (case fade_in_duration of
                       Some d \<Rightarrow> Mix_FadeInChannel audioChannel d
                     | None \<Rightarrow> Mix_PlayChannel audioChannel)];
          channel = play_channel_result env audioChannel;
          failed1 = (channel = - 1);
          out = register_effect_result env channel;
          calls2 = (if \<not> failed1
                    then Mix_RegisterEffect channel # (if out = 0 then [Mix_HaltChannel channel] else [])
                    else []);
          failed = (failed1 \<or> out = 0);
          calls3 = (case angle of
                      Some a \<Rightarrow> if \<not> failed then [Mix_SetPosition channel a] else []
                    | None \<Rightarrow> []);
          calls4 = (if failed then [Delete_Handler owns] else [])
      in (failed,
          st\<lparr>voices := (if failed then voices st else (voices st)(channel \<mapsto> handler)),
             sdl_calls := sdl_calls st @ calls1 @ calls2 @ calls3 @ calls4\<rparr>))"

text \<open>\<open>sfx::play_ambient_variant_sound\<close>; \<open>pitch\<close> is the \<open>double\<close> argument.\<close>

definition play_ambient_variant_sound ::
  "environment \<Rightarrow> string \<Rightarrow> string \<Rightarrow> string \<Rightarrow> bool option \<Rightarrow> bool option \<Rightarrow> int \<Rightarrow> int
     \<Rightarrow> int \<Rightarrow> rat \<Rightarrow> int \<Rightarrow> audio_state \<Rightarrow> error + audio_state" where
  "play_ambient_variant_sound env i v sn is_indoors is_night vol channel fade_in_duration
       pitch loops st =
     (if test_mode st then Inr st
      else if \<not> check_sound st vol then Inr st
      else if is_channel_playing env channel then Inr st
      else (case find_random_effect env st i v sn is_indoors is_night of
              Inl e \<Rightarrow> Inl e
            | Inr None \<Rightarrow> Inr st
            | Inr (Some selected_sound_effect) \<Rightarrow>
               (case get_sfx_resource env (resource_id selected_sound_effect) st of
                  Inl e \<Rightarrow> Inl e
                | Inr (effect_to_play, st1) \<Rightarrow>
                   (let is_pitched = (pitch > 0);
                        destroy_sound = is_pitched
                    in case (if is_pitched then do_pitch_shift effect_to_play (f32 pitch)
                             else Inr effect_to_play) of
                         Inl e \<Rightarrow> Inl e
                       | Inr effect_to_play' \<Rightarrow>
                          (let vol' = c_div (int_wrap (int_wrap (volume selected_sound_effect
                                                * ambient_sound_volume_option env) * vol))
                                       (100 * 100)
                           in Inr (snd (make_audio env channel effect_to_play' loops vol'
                                         destroy_sound selected_sound_effect None
                                         (Some (f32 (of_int fade_in_duration))) st1)))))))"

text \<open>Every interned path maps to an index of the resource vector.\<close>

definition paths_interned :: "audio_state \<Rightarrow> bool" where
  "paths_interned st = (\<forall>p rid. unique_paths st p = Some rid \<longrightarrow> rid < length (resource st))"

text \<open>A state and an environment in which a looping ambient effect could be started.\<close>

definition ambient_state :: audio_state where
  "ambient_state =
     \<lparr>test_mode = False, sound_init_success = True, sound_enabled = True,
      current_soundpack_path = ''sound'', unique_paths = Map.empty,
      resource = [\<lparr>path = ''wind.ogg'', chunk = None\<rparr>],
      sound_effects = footstep_map, voices = Map.empty, sdl_calls = []\<rparr>"

definition busy_environment :: environment where
  "busy_environment =
     \<lparr>Mix_LoadWAV = (\<lambda>p. None), join_path = (\<lambda>d f. d @ ''/'' @ f),
      is_channel_playing = (\<lambda>c. c = 3), play_channel_result = (\<lambda>c. c),
      register_effect_result = (\<lambda>c. 1), set_position_result = (\<lambda>c. 1),
      sound_effect_volume_option = 100, ambient_sound_volume_option = 100,
      random_entry_ref = hd\<rparr>"

section \<open>Reference formulations for the pitch shifter\<close>

text \<open>The samples that a buffer holds in frame \<open>j\<close>, as signed numbers.\<close>

definition left_sample :: "8 word list \<Rightarrow> nat \<Rightarrow> int" where
  "left_sample buf j = (case byte_pair buf (4 * j) of Inr w \<Rightarrow> sint w | Inl e \<Rightarrow> 0)"

definition right_sample :: "8 word list \<Rightarrow> nat \<Rightarrow> int" where
  "right_sample buf j = (case byte_pair buf (4 * j + 2) of Inr w \<Rightarrow> sint w | Inl e \<Rightarrow> 0)"

text \<open>The number of frames in a chunk, and \<open>s_out\<close> and \<open>pitch_real\<close> of \<open>do_pitch_shift\<close>.\<close>

definition chunk_frames :: "Mix_Chunk \<Rightarrow> nat" where
  "chunk_frames s = unat (alen s) div 4"

definition shifted_frames :: "Mix_Chunk \<Rightarrow> rat \<Rightarrow> nat" where
  "shifted_frames s pitch = nat (trunc (f32 (f32 (of_nat (chunk_frames s)) * pitch)))"

definition pitch_real_of :: "Mix_Chunk \<Rightarrow> rat \<Rightarrow> rat" where
  "pitch_real_of s pitch =
     f32 (f32 (of_nat (shifted_frames s pitch)) / f32 (of_nat (chunk_frames s)))"

text \<open>
  The averaging window of output frame \<open>i\<close> as the specification words it: the indices
  of the input frames in the half-open interval from \<open>i / pitch\<close> to
  \<open>(i + 1) / pitch\<close>, and the arithmetic mean of the samples there.
\<close>

definition spec_window :: "nat \<Rightarrow> rat \<Rightarrow> nat \<Rightarrow> nat list" where
  "spec_window n pitch i =
     filter (\<lambda>j. of_nat i / pitch \<le> of_nat j \<and> of_nat j < of_nat (i + 1) / pitch) [0..<n]"

definition spec_mean :: "(nat \<Rightarrow> int) \<Rightarrow> nat list \<Rightarrow> rat" where
  "spec_mean sample window = of_int (sum_list (map sample window)) / of_nat (length window)"

definition two_frames :: Mix_Chunk where
  "two_frames =
     \<lparr>allocated = 0, abuf = [0, 0, 0, 0, 100, 0, 156, 255], alen = 8, chunk_volume = 128\<rparr>"

definition averaged_two :: Mix_Chunk where
  "averaged_two =
     \<lparr>allocated = 1, abuf = [50, 0, 206, 255, 100, 0, 156, 255], alen = 8, chunk_volume = 128\<rparr>"

definition four_frames :: Mix_Chunk where
  "four_frames =
     \<lparr>allocated = 0,
      abuf = [10, 0, 246, 255, 20, 0, 236, 255, 30, 0, 226, 255, 40, 0, 216, 255],
      alen = 16, chunk_volume = 128\<rparr>"

definition shifted_three :: Mix_Chunk where
  "shifted_three =
     \<lparr>allocated = 1, abuf = [15, 0, 241, 255, 25, 0, 231, 255, 30, 0, 226, 255],
      alen = 12, chunk_volume = 128\<rparr>"

section \<open>Reference formulations for the callback\<close>








text \<open>Sources of two frames and of one, a voice on its last loop, and a buffer of four frames.\<close>

definition two_frame_source :: Mix_Chunk where
  "two_frame_source =
     \<lparr>allocated = 1, abuf = [1, 0, 2, 0, 3, 0, 4, 0], alen = 8, chunk_volume = 128\<rparr>"

definition one_frame_source :: Mix_Chunk where
  "one_frame_source = \<lparr>allocated = 1, abuf = [1, 0, 2, 0], alen = 4, chunk_volume = 128\<rparr>"

definition last_loop :: sound_effect_handler where
  "last_loop =
     \<lparr>audio_src = two_frame_source, active = True, owns_audio = False,
      current_sample_index = 0, loops_remaining = 0\<rparr>"

definition mixer_stream :: "8 word list" where
  "mixer_stream = [9, 9, 9, 9, 9, 9, 9, 9, 9, 9, 9, 9, 9, 9, 9, 9]"




text \<open>A mixer that decodes the file \<open>sound/wind.ogg\<close> and no other.\<close>

definition decoding_environment :: environment where
  "decoding_environment =
     \<lparr>Mix_LoadWAV = (\<lambda>p. if p = ''sound/wind.ogg'' then Some two_frame_source else None),
      join_path = (\<lambda>d f. d @ ''/'' @ f),
      is_channel_playing = (\<lambda>c. False), play_channel_result = (\<lambda>c. c),
      register_effect_result = (\<lambda>c. 1), set_position_result = (\<lambda>c. 1),
      sound_effect_volume_option = 100, ambient_sound_volume_option = 100,
      random_entry_ref = hd\<rparr>"

text \<open>A silent source of \<open>2^24 + 4\<close> frames.\<close>

definition long_source :: Mix_Chunk where
  "long_source =
     \<lparr>allocated = 1, abuf = replicate 67108880 0, alen = 67108880, chunk_volume = 128\<rparr>"


section \<open>Properties of single-precision rounding\<close>

lemma powi_nat: "0 \<le> b \<Longrightarrow> (2::rat) powi b = 2 ^ nat b"
  by (simp add: power_int_def)

lemma powi_neg: "0 \<le> b \<Longrightarrow> (2::rat) powi (- b) = inverse (2 ^ nat b)"
  by (simp add: power_int_minus powi_nat)

lemma floor_log2_ge1: "1 \<le> x \<Longrightarrow> floor_log2 x = bitlen \<lfloor>x\<rfloor> - 1"
  by (simp add: floor_log2_def)

lemma floor_log2_lt1: "\<not> 1 \<le> x \<Longrightarrow> floor_log2 x = - bitlen (\<lceil>1 / x\<rceil> - 1)"
  by (simp add: floor_log2_def)

lemma floor_log2_bounds:
  assumes "0 < x"
  shows "2 powi (floor_log2 x) \<le> x" and "x < 2 powi (floor_log2 x + 1)"
proof -
  show "2 powi (floor_log2 x) \<le> x"
  proof (cases "1 \<le> x")
    case True
    then have n: "0 < \<lfloor>x\<rfloor>" by simp
    from bitlen_bounds [OF n] have "2 ^ nat (bitlen \<lfloor>x\<rfloor> - 1) \<le> \<lfloor>x\<rfloor>" by simp
    then have "(of_int (2 ^ nat (bitlen \<lfloor>x\<rfloor> - 1)) :: rat) \<le> of_int \<lfloor>x\<rfloor>"
      by (simp only: of_int_le_iff)
    also have "\<dots> \<le> x" by simp
    finally have "(2::rat) ^ nat (bitlen \<lfloor>x\<rfloor> - 1) \<le> x" by simp
    moreover have "1 \<le> bitlen \<lfloor>x\<rfloor>" using n by (auto simp: bitlen_alt_def)
    ultimately show ?thesis by (simp add: floor_log2_ge1 [OF True] powi_nat)
  next
    case False
    define m where "m = \<lceil>1 / x\<rceil> - 1"
    have x1: "1 < 1 / x" using assms False by simp
    then have m: "0 < m" unfolding m_def by linarith
    from bitlen_bounds [OF m] have "m < 2 ^ nat (bitlen m)" by simp
    then have "\<lceil>1 / x\<rceil> \<le> 2 ^ nat (bitlen m)" unfolding m_def by linarith
    then have "(of_int \<lceil>1 / x\<rceil> :: rat) \<le> of_int (2 ^ nat (bitlen m))"
      by (simp only: of_int_le_iff)
    then have "(of_int \<lceil>1 / x\<rceil> :: rat) \<le> 2 ^ nat (bitlen m)" by simp
    with le_of_int_ceiling [of "1 / x"] have "1 / x \<le> 2 ^ nat (bitlen m)"
      by (rule order_trans)
    then have "1 \<le> 2 ^ nat (bitlen m) * x" using assms by (simp add: field_simps)
    then have "inverse (2 ^ nat (bitlen m)) \<le> x"
      by (simp add: field_simps)
    then have "2 powi (- bitlen m) \<le> x"
      by (simp add: powi_neg [OF bitlen_nonneg])
    then show ?thesis by (simp add: floor_log2_lt1 [OF False] m_def)
  qed
  show "x < 2 powi (floor_log2 x + 1)"
  proof (cases "1 \<le> x")
    case True
    then have n: "0 < \<lfloor>x\<rfloor>" by simp
    from bitlen_bounds [OF n] have "\<lfloor>x\<rfloor> + 1 \<le> 2 ^ nat (bitlen \<lfloor>x\<rfloor>)" by simp
    then have "(of_int (\<lfloor>x\<rfloor> + 1) :: rat) \<le> of_int (2 ^ nat (bitlen \<lfloor>x\<rfloor>))"
      by (simp only: of_int_le_iff)
    then have "(of_int (\<lfloor>x\<rfloor> + 1) :: rat) \<le> 2 ^ nat (bitlen \<lfloor>x\<rfloor>)" by simp
    moreover have "x < of_int (\<lfloor>x\<rfloor> + 1)" by linarith
    ultimately have "x < 2 ^ nat (bitlen \<lfloor>x\<rfloor>)" by linarith
    then show ?thesis by (simp add: floor_log2_ge1 [OF True] powi_nat bitlen_nonneg)
  next
    case False
    define m where "m = \<lceil>1 / x\<rceil> - 1"
    have x1: "1 < 1 / x" using assms False by simp
    then have m: "0 < m" unfolding m_def by linarith
    have b1: "1 \<le> bitlen m" using m by (auto simp: bitlen_alt_def)
    from bitlen_bounds [OF m] have "2 ^ nat (bitlen m - 1) \<le> m" by simp
    then have "(of_int (2 ^ nat (bitlen m - 1)) :: rat) \<le> of_int m"
      by (simp only: of_int_le_iff)
    then have "(2::rat) ^ nat (bitlen m - 1) \<le> of_int m" by simp
    moreover have "of_int m < 1 / x" unfolding m_def by linarith
    ultimately have "2 ^ nat (bitlen m - 1) < 1 / x" by (rule le_less_trans)
    then have "2 ^ nat (bitlen m - 1) * x < 1" using assms by (simp add: field_simps)
    then have "x < inverse (2 ^ nat (bitlen m - 1))"
      by (simp add: field_simps)
    moreover have "(2::rat) powi (- (bitlen m - 1)) = inverse (2 ^ nat (bitlen m - 1))"
      using b1 by (intro powi_neg) simp
    ultimately have lt: "x < 2 powi (- (bitlen m - 1))" by simp
    have eq: "floor_log2 x + 1 = - (bitlen m - 1)"
      by (simp add: floor_log2_lt1 [OF False] m_def)
    show ?thesis unfolding eq by (rule lt)
  qed
qed

lemma powi_mono: "a \<le> b \<Longrightarrow> (2::rat) powi a \<le> 2 powi b"
  by (rule power_int_increasing) simp_all

lemma powi_pos [simp]: "0 < (2::rat) powi a"
  by (simp add: zero_less_power_int)

lemma floor_log2_unique:
  assumes "2 powi e \<le> x" and "x < 2 powi (e + 1)"
  shows "floor_log2 x = e"
proof -
  have x: "0 < x" using assms(1) powi_pos [of e] by linarith
  note b = floor_log2_bounds [OF x]
  have "\<not> floor_log2 x < e"
  proof
    assume "floor_log2 x < e"
    then have "(2::rat) powi (floor_log2 x + 1) \<le> 2 powi e" by (intro powi_mono) simp
    with b(2) assms(1) show False by linarith
  qed
  moreover have "\<not> e < floor_log2 x"
  proof
    assume "e < floor_log2 x"
    then have "(2::rat) powi (e + 1) \<le> 2 powi (floor_log2 x)" by (intro powi_mono) simp
    with b(1) assms(2) show False by linarith
  qed
  ultimately show ?thesis by linarith
qed


lemma round_half_even_of_int [simp]: "round_half_even (of_int n) = n"
  by (simp add: round_half_even_def)

lemma round_half_even_mono: "p \<le> q \<Longrightarrow> round_half_even p \<le> round_half_even q"
proof -
  assume pq: "p \<le> q"
  have fl: "\<lfloor>p\<rfloor> \<le> \<lfloor>q\<rfloor>" using pq by (rule floor_mono)
  show ?thesis
  proof (cases "\<lfloor>p\<rfloor> = \<lfloor>q\<rfloor>")
    case True
    with pq show ?thesis by (auto simp: round_half_even_def Let_def)
  next
    case False
    with fl have "\<lfloor>p\<rfloor> + 1 \<le> \<lfloor>q\<rfloor>" by simp
    moreover have "round_half_even p \<le> \<lfloor>p\<rfloor> + 1" by (simp add: round_half_even_def Let_def)
    moreover have "\<lfloor>q\<rfloor> \<le> round_half_even q" by (simp add: round_half_even_def Let_def)
    ultimately show ?thesis by linarith
  qed
qed

lemma round_half_even_minus: "round_half_even (- q) = - round_half_even q"
proof (cases "q = of_int \<lfloor>q\<rfloor>")
  case True
  then have "- q = of_int (- \<lfloor>q\<rfloor>)" by simp
  then have "round_half_even (- q) = - \<lfloor>q\<rfloor>" by (simp only: round_half_even_of_int)
  moreover from True have "round_half_even q = \<lfloor>q\<rfloor>" by (metis round_half_even_of_int)
  ultimately show ?thesis by simp
next
  case False
  then have "of_int \<lfloor>q\<rfloor> < q" by (metis floor_less_cancel less_le not_less of_int_floor_le floor_of_int)
  then have c: "\<lceil>q\<rceil> = \<lfloor>q\<rfloor> + 1" by (simp add: ceiling_altdef False)
  have f: "\<lfloor>- q\<rfloor> = - \<lfloor>q\<rfloor> - 1" using c by (simp add: ceiling_def) 
  show ?thesis
    unfolding round_half_even_def Let_def f by (auto simp: field_simps)
qed


lemma floor_log2_mono:
  assumes "0 < x" and "x \<le> y"
  shows "floor_log2 x \<le> floor_log2 y"
proof (rule ccontr)
  assume "\<not> floor_log2 x \<le> floor_log2 y"
  then have "floor_log2 y + 1 \<le> floor_log2 x" by simp
  then have "(2::rat) powi (floor_log2 y + 1) \<le> 2 powi (floor_log2 x)" by (rule powi_mono)
  moreover have "0 < y" using assms by linarith
  ultimately show False
    using floor_log2_bounds(1) [OF assms(1)] floor_log2_bounds(2) [of y] assms(2) by linarith
qed

lemma f32_zero [simp]: "f32 0 = 0"
  by (simp add: f32_def)

lemma ulp_minus [simp]: "ulp (- x) = ulp x"
  by (simp add: ulp_def)

lemma f32_minus: "f32 (- x) = - f32 x"
  by (simp add: f32_def round_half_even_minus)

lemma ulp_pos [simp]: "0 < ulp x"
  by (simp add: ulp_def)

lemma ulp_nonneg [simp]: "0 \<le> ulp x"
  using ulp_pos [of x] by linarith

lemma f32_ulp: "x \<noteq> 0 \<Longrightarrow> f32 x = of_int (round_half_even (x / ulp x)) * ulp x"
  by (simp add: f32_def)

lemma powi_add: "(2::rat) powi (a + b) = 2 powi a * 2 powi b"
  by (simp add: power_int_add)

lemma powi_diff: "(2::rat) powi (a - b) = 2 powi a / 2 powi b"
  by (simp add: power_int_diff)

lemma mantissa_bounds:
  assumes "0 < x"
  shows "2 ^ 23 \<le> x / ulp x" and "x / ulp x < 2 ^ 24"
proof -
  have u: "ulp x = 2 powi (floor_log2 x) / 2 ^ 23"
    using assms by (simp add: ulp_def powi_diff)
  have p: "0 < (2::rat) powi (floor_log2 x)" by simp
  from floor_log2_bounds(1) [OF assms] p show "2 ^ 23 \<le> x / ulp x"
    unfolding u by (simp add: field_simps)
  have "x < 2 powi (floor_log2 x) * 2"
    using floor_log2_bounds(2) [OF assms] by (simp add: powi_add)
  with p show "x / ulp x < 2 ^ 24"
    unfolding u by (simp add: field_simps)
qed

lemma round_mantissa_bounds:
  assumes "0 < x"
  shows "2 ^ 23 \<le> round_half_even (x / ulp x)" and "round_half_even (x / ulp x) \<le> 2 ^ 24"
proof -
  have "round_half_even (of_int (2 ^ 23)) \<le> round_half_even (x / ulp x)"
    using mantissa_bounds(1) [OF assms] by (intro round_half_even_mono) simp
  then show "2 ^ 23 \<le> round_half_even (x / ulp x)" by (simp only: round_half_even_of_int)
  have "round_half_even (x / ulp x) \<le> round_half_even (of_int (2 ^ 24))"
    using mantissa_bounds(2) [OF assms] by (intro round_half_even_mono) simp
  then show "round_half_even (x / ulp x) \<le> 2 ^ 24" by (simp only: round_half_even_of_int)
qed

lemma f32_binade:
  assumes "0 < x"
  shows "2 powi (floor_log2 x) \<le> f32 x" and "f32 x \<le> 2 powi (floor_log2 x + 1)"
proof -
  have u: "2 powi (floor_log2 x) = 2 ^ 23 * ulp x"
    using assms by (simp add: ulp_def powi_diff)
  have u2: "2 ^ 24 * ulp x = 2 powi (floor_log2 x + 1)"
    using assms by (simp add: ulp_def powi_diff powi_add)
  have f: "of_int (round_half_even (x / ulp x)) * ulp x = f32 x"
    using assms by (simp add: f32_ulp)
  have "(of_int (2 ^ 23) :: rat) \<le> of_int (round_half_even (x / ulp x))"
    using round_mantissa_bounds(1) [OF assms] by (simp only: of_int_le_iff)
  then have "(2 ^ 23 :: rat) \<le> of_int (round_half_even (x / ulp x))" by simp
  then have "2 ^ 23 * ulp x \<le> of_int (round_half_even (x / ulp x)) * ulp x"
    by (rule mult_right_mono) simp
  with u f show "2 powi (floor_log2 x) \<le> f32 x" by (simp only:)
  have "(of_int (round_half_even (x / ulp x)) :: rat) \<le> of_int (2 ^ 24)"
    using round_mantissa_bounds(2) [OF assms] by (simp only: of_int_le_iff)
  then have "(of_int (round_half_even (x / ulp x)) :: rat) \<le> 2 ^ 24" by simp
  then have "of_int (round_half_even (x / ulp x)) * ulp x \<le> 2 ^ 24 * ulp x"
    by (rule mult_right_mono) simp
  with u2 f show "f32 x \<le> 2 powi (floor_log2 x + 1)" by (simp only:)
qed

lemma f32_mono_pos:
  assumes "0 < x" and "x \<le> y"
  shows "f32 x \<le> f32 y"
proof -
  have y: "0 < y" using assms by linarith
  have le: "floor_log2 x \<le> floor_log2 y" using assms by (rule floor_log2_mono)
  show ?thesis
  proof (cases "floor_log2 x = floor_log2 y")
    case True
    then have u: "ulp y = ulp x" using assms y by (simp add: ulp_def)
    have "x / ulp x \<le> y / ulp x" using assms(2) by (rule divide_right_mono) simp
    then have "round_half_even (x / ulp x) \<le> round_half_even (y / ulp x)"
      by (rule round_half_even_mono)
    then have "(of_int (round_half_even (x / ulp x)) :: rat) \<le> of_int (round_half_even (y / ulp x))"
      by (simp only: of_int_le_iff)
    then have "of_int (round_half_even (x / ulp x)) * ulp x
        \<le> of_int (round_half_even (y / ulp x)) * ulp x"
      by (intro mult_right_mono) simp_all
    then show ?thesis using assms(1) y u by (simp add: f32_ulp)
  next
    case False
    with le have "floor_log2 x + 1 \<le> floor_log2 y" by simp
    then have "(2::rat) powi (floor_log2 x + 1) \<le> 2 powi (floor_log2 y)" by (rule powi_mono)
    with f32_binade(2) [OF assms(1)] f32_binade(1) [OF y] show ?thesis by linarith
  qed
qed

lemma f32_pos: "0 < x \<Longrightarrow> 0 < f32 x"
  using f32_binade(1) [of x] powi_pos [of "floor_log2 x"] by linarith

lemma f32_mono:
  assumes "x \<le> y"
  shows "f32 x \<le> f32 y"
proof -
  consider "0 < x" | "x \<le> 0" "0 < y" | "x < 0" "y \<le> 0" | "x = 0" "y = 0"
    using assms by linarith
  then show ?thesis
  proof cases
    case 1
    then show ?thesis using assms by (rule f32_mono_pos)
  next
    case 2
    have "f32 x \<le> 0"
    proof (cases "x = 0")
      case True then show ?thesis by simp
    next
      case False
      with 2 have "0 < - x" by simp
      from f32_pos [OF this] show ?thesis by (simp add: f32_minus)
    qed
    moreover have "0 < f32 y" using 2 by (intro f32_pos)
    ultimately show ?thesis by linarith
  next
    case 3
    show ?thesis
    proof (cases "y = 0")
      case True
      from 3 have "0 < - x" by simp
      from f32_pos [OF this] True show ?thesis by (simp add: f32_minus)
    next
      case False
      with 3 have "0 < - y" "- y \<le> - x" using assms by simp_all
      from f32_mono_pos [OF this] show ?thesis by (simp add: f32_minus)
    qed
  next
    case 4
    then show ?thesis by simp
  qed
qed


lemma powi_less_cancel: "(2::rat) powi a < 2 powi b \<Longrightarrow> a < b"
proof (rule ccontr)
  assume lt: "(2::rat) powi a < 2 powi b" and "\<not> a < b"
  then have "b \<le> a" by simp
  then have "(2::rat) powi b \<le> 2 powi a" by (rule powi_mono)
  with lt show False by linarith
qed

lemma f32_on_grid:
  assumes "0 < x" and "x / ulp x = of_int n"
  shows "f32 x = x"
proof -
  have "f32 x = of_int (round_half_even (of_int n)) * ulp x"
    using assms by (simp add: f32_ulp)
  also have "\<dots> = (x / ulp x) * ulp x" using assms(2) by simp
  also have "\<dots> = x"
  proof -
    have "ulp x \<noteq> 0" using ulp_pos [of x] by linarith
    then show ?thesis by simp
  qed
  finally show ?thesis .
qed

lemma f32_exact_pos:
  assumes "x = of_int k * 2 powi j" and "0 < k" and "k < 2 ^ 24"
  shows "f32 x = x"
proof -
  have x: "0 < x" using assms by simp
  have "(of_int k :: rat) < of_int (2 ^ 24)" using assms(3) by (simp only: of_int_less_iff)
  then have "(of_int k :: rat) < 2 ^ 24" by simp
  then have "(of_int k :: rat) * 2 powi j < 2 ^ 24 * 2 powi j"
    by (rule mult_strict_right_mono) simp
  also have "\<dots> = 2 powi (24 + j)" by (simp add: powi_add)
  finally have "x < 2 powi (24 + j)" using assms(1) by simp
  with floor_log2_bounds(1) [OF x] have "(2::rat) powi (floor_log2 x) < 2 powi (24 + j)"
    by linarith
  then have e: "floor_log2 x < 24 + j" by (rule powi_less_cancel)
  define n where "n = nat (j - (floor_log2 x - 23))"
  have n: "int n = j - (floor_log2 x - 23)" using e by (simp add: n_def)
  have "x / ulp x = of_int k * (2 powi j / 2 powi (floor_log2 x - 23))"
    using x by (simp add: ulp_def assms(1))
  also have "2 powi j / 2 powi (floor_log2 x - 23) = (2::rat) powi (int n)"
    unfolding n by (simp only: powi_diff)
  also have "(2::rat) powi (int n) = 2 ^ n" by simp
  finally have "x / ulp x = of_int (k * 2 ^ n)" by simp
  with x show ?thesis by (rule f32_on_grid)
qed

lemma f32_exact:
  assumes "x = of_int k * 2 powi j" and "\<bar>k\<bar> < 2 ^ 24"
  shows "f32 x = x"
proof -
  consider "k = 0" | "0 < k" | "k < 0" by linarith
  then show ?thesis
  proof cases
    case 1
    with assms show ?thesis by simp
  next
    case 2
    with assms show ?thesis by (intro f32_exact_pos [of x k j]) simp_all
  next
    case 3
    have "f32 (- x) = - x"
      using assms 3 by (intro f32_exact_pos [of "- x" "- k" j]) simp_all
    then show ?thesis by (simp add: f32_minus)
  qed
qed

lemma f32_of_int: "\<bar>k\<bar> < 2 ^ 24 \<Longrightarrow> f32 (of_int k) = of_int k"
  by (rule f32_exact [of _ k 0]) simp_all

lemma f32_power2 [simp]: "f32 (2 powi j) = 2 powi j"
  by (rule f32_exact [of _ 1 j]) simp_all


lemma f32_idem: "f32 (f32 x) = f32 x"
proof -
  have pos: "f32 (f32 y) = f32 y" if y: "0 < y" for y
  proof -
    define m where "m = round_half_even (y / ulp y)"
    have f: "f32 y = of_int m * 2 powi (floor_log2 y - 23)"
      using y by (simp add: f32_ulp m_def ulp_def)
    have m: "2 ^ 23 \<le> m" "m \<le> 2 ^ 24"
      using round_mantissa_bounds [OF y] by (simp_all add: m_def)
    show ?thesis
    proof (cases "m = 2 ^ 24")
      case True
      then have "f32 y = 2 powi (floor_log2 y + 1)"
        using f by (simp add: powi_diff powi_add)
      then show ?thesis by simp
    next
      case False
      with m have "0 < m" "m < 2 ^ 24" by simp_all
      with f show ?thesis by (intro f32_exact_pos [of _ m "floor_log2 y - 23"]) 
    qed
  qed
  consider "x = 0" | "0 < x" | "x < 0" by linarith
  then show ?thesis
  proof cases
    case 1 then show ?thesis by simp
  next
    case 2 then show ?thesis by (rule pos)
  next
    case 3
    then have "0 < - x" by simp
    from pos [OF this] show ?thesis by (simp add: f32_minus)
  qed
qed


lemma representable_grid:
  assumes "f32 x = x" and "0 < x"
  shows "\<exists>m. x = of_int m * ulp x"
proof -
  have "x = of_int (round_half_even (x / ulp x)) * ulp x"
    using assms f32_ulp [of x] by simp
  then show ?thesis ..
qed

lemma remainder_bounds:
  assumes "0 < (y::rat)"
  shows "0 \<le> x - y * of_int \<lfloor>x / y\<rfloor>" and "x - y * of_int \<lfloor>x / y\<rfloor> < y"
proof -
  have "of_int \<lfloor>x / y\<rfloor> \<le> x / y" by (rule of_int_floor_le)
  then have "of_int \<lfloor>x / y\<rfloor> * y \<le> x" using assms by (simp only: pos_le_divide_eq)
  then show "0 \<le> x - y * of_int \<lfloor>x / y\<rfloor>" by (simp add: mult.commute)
  have "x / y < of_int \<lfloor>x / y\<rfloor> + 1" by linarith
  then have "x < (of_int \<lfloor>x / y\<rfloor> + 1) * y" using assms by (simp only: pos_divide_less_eq)
  then show "x - y * of_int \<lfloor>x / y\<rfloor> < y" by (simp add: algebra_simps)
qed

lemma remainder_representable:
  assumes fx: "f32 x = x" and fy: "f32 y = y" and y: "0 < y" and yx: "y \<le> x"
  shows "f32 (x - y * of_int \<lfloor>x / y\<rfloor>) = x - y * of_int \<lfloor>x / y\<rfloor>"
proof -
  have x: "0 < x" using y yx by linarith
  from representable_grid [OF fx x] obtain mx where mx: "x = of_int mx * ulp x" ..
  from representable_grid [OF fy y] obtain my where my: "y = of_int my * ulp y" ..
  define d where "d = nat (floor_log2 x - floor_log2 y)"
  have le: "floor_log2 y \<le> floor_log2 x" using y yx by (rule floor_log2_mono)
  then have d: "int d = (floor_log2 x - 23) - (floor_log2 y - 23)" by (simp add: d_def)
  have "ulp x / ulp y = 2 powi (int d)"
    using x y unfolding d by (simp add: ulp_def powi_diff)
  then have ux: "ulp x = 2 ^ d * ulp y"
    using ulp_pos [of y] by (simp add: field_simps)
  define k where "k = \<lfloor>x / y\<rfloor>"
  define mr where "mr = mx * 2 ^ d - k * my"
  have "x - y * of_int k = of_int mx * (2 ^ d * ulp y) - of_int k * (of_int my * ulp y)"
    using mx my ux by (simp add: mult.commute)
  also have "\<dots> = of_int mr * ulp y" by (simp add: mr_def algebra_simps)
  finally have r: "x - y * of_int k = of_int mr * 2 powi (floor_log2 y - 23)"
    using y by (simp add: ulp_def)
  have r0: "0 \<le> x - y * of_int k" and ry: "x - y * of_int k < y"
    unfolding k_def using remainder_bounds [OF y] by blast+
  have p: "0 < (2::rat) powi (floor_log2 y - 23)" by simp
  have "0 \<le> (of_int mr :: rat)"
    using r0 p unfolding r by (simp add: zero_le_mult_iff)
  then have mr0: "0 \<le> mr" by simp
  have "y < 2 powi (floor_log2 y + 1)" using y by (rule floor_log2_bounds(2))
  also have "\<dots> = 2 ^ 24 * 2 powi (floor_log2 y - 23)" by (simp add: powi_diff powi_add)
  finally have "(of_int mr :: rat) * 2 powi (floor_log2 y - 23) < 2 ^ 24 * 2 powi (floor_log2 y - 23)"
    using ry unfolding r by linarith
  then have "(of_int mr :: rat) < 2 ^ 24" using p by (simp only: mult_less_cancel_right_pos)
  then have "(of_int mr :: rat) < of_int (2 ^ 24)" by simp
  then have "mr < 2 ^ 24" by (simp only: of_int_less_iff)
  with mr0 have "\<bar>mr\<bar> < 2 ^ 24" by simp
  with r have "f32 (x - y * of_int k) = x - y * of_int k" by (rule f32_exact)
  then show ?thesis by (simp add: k_def)
qed



section \<open>Properties of the resolver\<close>

lemma level_keys_total:
  "level_keys sn ind nit =
     (case season_from_string sn of Inl e \<Rightarrow> Inl e
      | Inr s \<Rightarrow> Inr (s,
          (case ind of None \<Rightarrow> EITHER | Some b \<Rightarrow> if b then INDOORS else OUTDOORS),
          (case nit of None \<Rightarrow> ANY | Some b \<Rightarrow> if b then NIGHTTIME else DAYTIME)))"
  by (simp add: level_keys_def in_or_out_from_int_def tod_from_int_def bool_or_def Let_def
      split: sum.splits option.splits)

lemmas find_closest_defs = find_closest_sfx_5_def find_closest_sfx_4_def
  find_closest_sfx_3_def find_closest_sfx_2_def find_closest_sfx_1_def closest_it_def

lemmas find_sfx_defs = find_sfx_5_def find_sfx_4_def find_sfx_3_def find_sfx_2_def find_sfx_1_def

lemma closest_it_first_present: "closest_it c k d = first_present c [k, d]"
  by (simp add: closest_it_def Let_def split: option.splits)

text \<open>
  C1 (as amended). For every query, \<open>sfx_map::find\<close> with fallback first converts the
  season, indoor and night arguments (an unknown season string throws before anything is
  probed) and then probes the five levels in the fixed order id, variant, season,
  indoorness, time of day. At each level it tries the supplied value and, if that is
  absent, exactly one default: the empty string for the id, \<open>default\<close> for the variant,
  \<open>NONE\<close>, \<open>EITHER\<close> and \<open>ANY\<close> for the other three. The levels are nested, and the
  result is none as soon as one level has neither the value nor the default.
\<close>

theorem find_probes_levels:
  "sfx_map_find effects i v sn is_indoors is_night =
     (case level_keys sn is_indoors is_night of
        Inl e \<Rightarrow> Inl e
      | Inr (s, io, t) \<Rightarrow>
          Inr (probe_levels effects [i, []] [v, ''default''] [s, NONE] [io, EITHER] [t, ANY]))"
  by (simp add: sfx_map_find_def probe_levels_def find_closest_sfx_5_def find_closest_sfx_4_def
      find_closest_sfx_3_def find_closest_sfx_2_def find_closest_sfx_1_def
      closest_it_first_present del: first_present.simps
      split: sum.splits option.splits prod.splits)

text \<open>
  The specification's scenario: the query (footstep, heavy, winter, indoors, night) falls
  back at the last four levels to the one stored bucket.
\<close>

theorem find_probes_levels_witness:
  "sfx_map_find footstep_map ''footstep'' ''heavy'' ''winter'' (Some True) (Some True)
     = Inr (Some [\<lparr>volume = 80, resource_id = 0\<rparr>])"
  using find_probes_levels [of footstep_map "''footstep''" "''heavy''" "''winter''" "Some True" "Some True"]
  by (simp add: level_keys_total season_from_string_def probe_levels_def footstep_map_def)

text \<open>
  C1 as stated fails: the id is defaulted too. With a single bucket stored under the
  empty id, a query for the id \<open>footstep\<close> is answered with that bucket, where the
  specification's resolver, which never defaults the id, answers none.
\<close>

theorem find_id_defaulted_counterexample:
  "sfx_map_find empty_id_map ''footstep'' ''default'' [] None None
     = Inr (Some [\<lparr>volume = 80, resource_id = 0\<rparr>])
   \<and> findBestMatch_spec empty_id_map ''footstep'' ''default'' NONE EITHER ANY = None"
  by (simp add: sfx_map_find_def level_keys_total season_from_string_def
      find_closest_sfx_5_def find_closest_sfx_4_def
      find_closest_sfx_3_def find_closest_sfx_2_def find_closest_sfx_1_def closest_it_def
      findBestMatch_spec_def probe_levels_def empty_id_map_def)

lemma closest_night_drop_day:
  "find_closest_sfx_5 (drop_tod DAYTIME effects) i d1 v d2 s d3 io d4 NIGHTTIME ANY
     = find_closest_sfx_5 effects i d1 v d2 s d3 io d4 NIGHTTIME ANY"
  by (simp add: find_closest_defs drop_tod_def Let_def split: option.splits)

lemma closest_day_drop_night:
  "find_closest_sfx_5 (drop_tod NIGHTTIME effects) i d1 v d2 s d3 io d4 DAYTIME ANY
     = find_closest_sfx_5 effects i d1 v d2 s d3 io d4 DAYTIME ANY"
  by (simp add: find_closest_defs drop_tod_def Let_def split: option.splits)

lemma closest_indoors_drop_outdoors:
  "find_closest_sfx_5 (drop_in_or_out OUTDOORS effects) i d1 v d2 s d3 INDOORS EITHER t d5
     = find_closest_sfx_5 effects i d1 v d2 s d3 INDOORS EITHER t d5"
  by (simp add: find_closest_defs drop_in_or_out_def Let_def split: option.splits)

lemma closest_outdoors_drop_indoors:
  "find_closest_sfx_5 (drop_in_or_out INDOORS effects) i d1 v d2 s d3 OUTDOORS EITHER t d5
     = find_closest_sfx_5 effects i d1 v d2 s d3 OUTDOORS EITHER t d5"
  by (simp add: find_closest_defs drop_in_or_out_def Let_def split: option.splits)

lemma closest_it_Some: "closest_it c k d = Some x \<Longrightarrow> \<exists>k'. k' \<in> {k, d} \<and> c k' = Some x"
  by (auto simp: closest_it_def Let_def split: if_splits)

lemma closest_stored_path:
  assumes "find_closest_sfx_5 effects i d1 v d2 s d3 io d4 t d5 = Some bucket"
  shows "\<exists>i' v' s' io' t'. i' \<in> {i, d1} \<and> v' \<in> {v, d2} \<and> s' \<in> {s, d3} \<and> io' \<in> {io, d4}
        \<and> t' \<in> {t, d5} \<and> find_sfx_5 effects i' v' s' io' t' = Some bucket"
proof -
  from assms obtain c2 c3 c4 c5 where
    l1: "closest_it effects i d1 = Some c2" and l2: "closest_it c2 v d2 = Some c3"
    and l3: "closest_it c3 s d3 = Some c4" and l4: "closest_it c4 io d4 = Some c5"
    and l5: "closest_it c5 t d5 = Some bucket"
    by (auto simp: find_closest_sfx_5_def find_closest_sfx_4_def
      find_closest_sfx_3_def find_closest_sfx_2_def find_closest_sfx_1_def split: option.splits)
  from closest_it_Some [OF l1] obtain i' where i: "i' \<in> {i, d1}" "effects i' = Some c2" by blast
  from closest_it_Some [OF l2] obtain v' where v: "v' \<in> {v, d2}" "c2 v' = Some c3" by blast
  from closest_it_Some [OF l3] obtain s' where s: "s' \<in> {s, d3}" "c3 s' = Some c4" by blast
  from closest_it_Some [OF l4] obtain io' where io: "io' \<in> {io, d4}" "c4 io' = Some c5" by blast
  from closest_it_Some [OF l5] obtain t' where t: "t' \<in> {t, d5}" "c5 t' = Some bucket" by blast
  have "find_sfx_5 effects i' v' s' io' t' = Some bucket"
    using i v s io t by (simp add: find_sfx_defs)
  with i v s io t show ?thesis by blast
qed

lemma find_stored_path:
  assumes "sfx_map_find effects i v sn ind nit = Inr (Some bucket)"
  shows "\<exists>i' v' s' io' t'.
           io' \<in> {(case ind of None \<Rightarrow> EITHER | Some b \<Rightarrow> if b then INDOORS else OUTDOORS), EITHER}
         \<and> t' \<in> {(case nit of None \<Rightarrow> ANY | Some b \<Rightarrow> if b then NIGHTTIME else DAYTIME), ANY}
         \<and> find_sfx_5 effects i' v' s' io' t' = Some bucket"
proof -
  from assms obtain s where
    "find_closest_sfx_5 effects i [] v ''default'' s NONE
       (case ind of None \<Rightarrow> EITHER | Some b \<Rightarrow> if b then INDOORS else OUTDOORS) EITHER
       (case nit of None \<Rightarrow> ANY | Some b \<Rightarrow> if b then NIGHTTIME else DAYTIME) ANY = Some bucket"
    by (auto simp: sfx_map_find_def level_keys_total split: sum.splits)
  from closest_stored_path [OF this] show ?thesis by blast
qed

text \<open>
  C2. A night request is never satisfied by what is stored under day, and a day request
  never by what is stored under night: the answer to a night (day) request is the same
  when every entry stored under \<open>DAYTIME\<close> (\<open>NIGHTTIME\<close>) is removed from the map, and
  a bucket that answers it is stored under the request's own value or under \<open>ANY\<close>.
  The same holds for indoor and outdoor requests with \<open>OUTDOORS\<close>, \<open>INDOORS\<close> and
  \<open>EITHER\<close>.
\<close>

theorem find_never_crosses:
  "sfx_map_find (drop_tod DAYTIME effects) i v sn ind (Some True)
     = sfx_map_find effects i v sn ind (Some True)
   \<and> sfx_map_find (drop_tod NIGHTTIME effects) i v sn ind (Some False)
     = sfx_map_find effects i v sn ind (Some False)
   \<and> sfx_map_find (drop_in_or_out OUTDOORS effects) i v sn (Some True) nit
     = sfx_map_find effects i v sn (Some True) nit
   \<and> sfx_map_find (drop_in_or_out INDOORS effects) i v sn (Some False) nit
     = sfx_map_find effects i v sn (Some False) nit
   \<and> (sfx_map_find effects i v sn ind (Some True) = Inr (Some bucket) \<longrightarrow>
        (\<exists>i' v' s' io' t'. t' \<in> {NIGHTTIME, ANY} \<and> find_sfx_5 effects i' v' s' io' t' = Some bucket))
   \<and> (sfx_map_find effects i v sn ind (Some False) = Inr (Some bucket) \<longrightarrow>
        (\<exists>i' v' s' io' t'. t' \<in> {DAYTIME, ANY} \<and> find_sfx_5 effects i' v' s' io' t' = Some bucket))
   \<and> (sfx_map_find effects i v sn (Some True) nit = Inr (Some bucket) \<longrightarrow>
        (\<exists>i' v' s' io' t'. io' \<in> {INDOORS, EITHER} \<and> find_sfx_5 effects i' v' s' io' t' = Some bucket))
   \<and> (sfx_map_find effects i v sn (Some False) nit = Inr (Some bucket) \<longrightarrow>
        (\<exists>i' v' s' io' t'. io' \<in> {OUTDOORS, EITHER} \<and> find_sfx_5 effects i' v' s' io' t' = Some bucket))"
proof -
  have n: "sfx_map_find (drop_tod DAYTIME effects) i v sn ind (Some True)
      = sfx_map_find effects i v sn ind (Some True)"
    by (simp add: sfx_map_find_def level_keys_total closest_night_drop_day split: sum.splits)
  have d: "sfx_map_find (drop_tod NIGHTTIME effects) i v sn ind (Some False)
      = sfx_map_find effects i v sn ind (Some False)"
    by (simp add: sfx_map_find_def level_keys_total closest_day_drop_night split: sum.splits)
  have inn: "sfx_map_find (drop_in_or_out OUTDOORS effects) i v sn (Some True) nit
      = sfx_map_find effects i v sn (Some True) nit"
    by (simp add: sfx_map_find_def level_keys_total closest_indoors_drop_outdoors split: sum.splits)
  have out: "sfx_map_find (drop_in_or_out INDOORS effects) i v sn (Some False) nit
      = sfx_map_find effects i v sn (Some False) nit"
    by (simp add: sfx_map_find_def level_keys_total closest_outdoors_drop_indoors split: sum.splits)
  have pn: "sfx_map_find effects i v sn ind (Some True) = Inr (Some bucket) \<longrightarrow>
        (\<exists>i' v' s' io' t'. t' \<in> {NIGHTTIME, ANY} \<and> find_sfx_5 effects i' v' s' io' t' = Some bucket)"
    using find_stored_path [of effects i v sn ind "Some True" bucket] by fastforce
  have pd: "sfx_map_find effects i v sn ind (Some False) = Inr (Some bucket) \<longrightarrow>
        (\<exists>i' v' s' io' t'. t' \<in> {DAYTIME, ANY} \<and> find_sfx_5 effects i' v' s' io' t' = Some bucket)"
    using find_stored_path [of effects i v sn ind "Some False" bucket] by fastforce
  have pi: "sfx_map_find effects i v sn (Some True) nit = Inr (Some bucket) \<longrightarrow>
        (\<exists>i' v' s' io' t'. io' \<in> {INDOORS, EITHER} \<and> find_sfx_5 effects i' v' s' io' t' = Some bucket)"
    using find_stored_path [of effects i v sn "Some True" nit bucket] by fastforce
  have po: "sfx_map_find effects i v sn (Some False) nit = Inr (Some bucket) \<longrightarrow>
        (\<exists>i' v' s' io' t'. io' \<in> {OUTDOORS, EITHER} \<and> find_sfx_5 effects i' v' s' io' t' = Some bucket)"
    using find_stored_path [of effects i v sn "Some False" nit bucket] by fastforce
  from n d inn out pn pd pi po show ?thesis by blast
qed

lemma find_footstep_map:
  "sfx_map_find footstep_map ''footstep'' ''default'' [] ind nit
     = Inr (Some [\<lparr>volume = 80, resource_id = 0\<rparr>])"
  by (simp add: sfx_map_find_def level_keys_total season_from_string_def find_closest_defs
      footstep_map_def split: option.splits)

theorem find_never_crosses_witness:
  "sfx_map_find footstep_map ''footstep'' ''default'' [] None (Some True)
     = Inr (Some [\<lparr>volume = 80, resource_id = 0\<rparr>])
   \<and> sfx_map_find footstep_map ''footstep'' ''default'' [] None (Some False)
     = Inr (Some [\<lparr>volume = 80, resource_id = 0\<rparr>])
   \<and> sfx_map_find footstep_map ''footstep'' ''default'' [] (Some True) None
     = Inr (Some [\<lparr>volume = 80, resource_id = 0\<rparr>])
   \<and> sfx_map_find footstep_map ''footstep'' ''default'' [] (Some False) None
     = Inr (Some [\<lparr>volume = 80, resource_id = 0\<rparr>])
   \<and> (\<exists>i' v' s' io' t'. t' \<in> {NIGHTTIME, ANY}
        \<and> find_sfx_5 footstep_map i' v' s' io' t' = Some [\<lparr>volume = 80, resource_id = 0\<rparr>])
   \<and> (\<exists>i' v' s' io' t'. t' \<in> {DAYTIME, ANY}
        \<and> find_sfx_5 footstep_map i' v' s' io' t' = Some [\<lparr>volume = 80, resource_id = 0\<rparr>])
   \<and> (\<exists>i' v' s' io' t'. io' \<in> {INDOORS, EITHER}
        \<and> find_sfx_5 footstep_map i' v' s' io' t' = Some [\<lparr>volume = 80, resource_id = 0\<rparr>])
   \<and> (\<exists>i' v' s' io' t'. io' \<in> {OUTDOORS, EITHER}
        \<and> find_sfx_5 footstep_map i' v' s' io' t' = Some [\<lparr>volume = 80, resource_id = 0\<rparr>])"
  using find_never_crosses [of footstep_map "''footstep''" "''default''" "[]" None None
      "[\<lparr>volume = 80, resource_id = 0\<rparr>]"]
  unfolding find_footstep_map by simp

lemma find_sfx_empty [simp]:
  "find_sfx_1 Map.empty k = None"
  "find_sfx_2 Map.empty k k2 = None"
  "find_sfx_3 Map.empty k k2 k3 = None"
  "find_sfx_4 Map.empty k k2 k3 k4 = None"
  "find_sfx_5 Map.empty k k2 k3 k4 k5 = None"
  by (simp_all add: find_sfx_defs)















section \<open>Properties of the resource table\<close>

lemma add_sfx_path_interned:
  assumes "paths_interned st" and "add_sfx_path p st = (rid, st')"
  shows "rid < length (resource st') \<and> paths_interned st'"
proof (cases "unique_paths st p")
  case None
  with assms(2) have rid: "rid = length (resource st)"
    and st': "st' = st\<lparr>resource := resource st @ [\<lparr>path = p, chunk = None\<rparr>],
                      unique_paths := (unique_paths st)(p \<mapsto> length (resource st))\<rparr>"
    by (auto simp: add_sfx_path_def Let_def)
  have "paths_interned st'"
    using assms(1) unfolding st' paths_interned_def by (auto simp: less_Suc_eq)
  with rid st' show ?thesis by simp
next
  case (Some found)
  with assms(2) have "rid = found" "st' = st" by (simp_all add: add_sfx_path_def)
  with Some assms(1) show ?thesis by (auto simp: paths_interned_def)
qed

text \<open>
  C8. An id handed out by \<open>add_sfx_path\<close> indexes the resource vector, and for every
  such id \<open>get_sfx_resource\<close> raises nothing. It returns the chunk the entry holds; for
  an entry not loaded yet, the chunk that \<open>Mix_LoadWAV\<close> decodes from the entry's file, or
  the null chunk (no buffer, zero length) when decoding fails. The entry holds the returned
  chunk afterwards, and a second call in the resulting state returns that chunk and changes
  nothing whatever the mixer would decode then: it does not load again.
\<close>

theorem get_sfx_resource_cached:
  "(paths_interned st0 \<and> add_sfx_path p st0 = (rid0, st1) \<longrightarrow> rid0 < length (resource st1))
   \<and> (rid < length (resource st) \<longrightarrow>
        (\<exists>c st'. get_sfx_resource env rid st = Inr (c, st')
           \<and> c = (case chunk (resource st ! rid) of
                    Some cached \<Rightarrow> cached
                  | None \<Rightarrow>
                      (case Mix_LoadWAV env (join_path env (current_soundpack_path st)
                                               (path (resource st ! rid))) of
                         Some decoded \<Rightarrow> decoded
                       | None \<Rightarrow> make_null_chunk))
           \<and> chunk (resource st' ! rid) = Some c
           \<and> (\<forall>env'. get_sfx_resource env' rid st' = Inr (c, st'))
           \<and> (chunk (resource st ! rid) = None
                \<and> Mix_LoadWAV env (join_path env (current_soundpack_path st)
                                     (path (resource st ! rid))) = None
               \<longrightarrow> c = make_null_chunk \<and> abuf c = [] \<and> alen c = 0 \<and> wf_chunk c)))"
proof (intro conjI impI)
  assume "paths_interned st0 \<and> add_sfx_path p st0 = (rid0, st1)"
  then show "rid0 < length (resource st1)" using add_sfx_path_interned by blast
next
  assume rid: "rid < length (resource st)"
  let ?p = "join_path env (current_soundpack_path st) (path (resource st ! rid))"
  let ?c = "case chunk (resource st ! rid) of
              Some cached \<Rightarrow> cached
            | None \<Rightarrow> (case Mix_LoadWAV env ?p of Some decoded \<Rightarrow> decoded
                        | None \<Rightarrow> make_null_chunk)"
  define st' where "st' = (case chunk (resource st ! rid) of Some cached \<Rightarrow> st
      | None \<Rightarrow> st\<lparr>resource := (resource st)[rid := (resource st ! rid)\<lparr>chunk := Some ?c\<rparr>]\<rparr>)"
  have first: "get_sfx_resource env rid st = Inr (?c, st')"
    using rid by (simp add: get_sfx_resource_def Let_def st'_def load_chunk_def
        split: option.splits)
  have stored: "chunk (resource st' ! rid) = Some ?c"
    using rid by (simp add: st'_def split: option.splits)
  have len: "rid < length (resource st')"
    using rid by (simp add: st'_def split: option.splits)
  have second: "get_sfx_resource env' rid st' = Inr (?c, st')" for env'
    using len stored by (simp add: get_sfx_resource_def Let_def)
  have null: "chunk (resource st ! rid) = None \<and> Mix_LoadWAV env ?p = None
        \<longrightarrow> ?c = make_null_chunk \<and> abuf ?c = [] \<and> alen ?c = 0 \<and> wf_chunk ?c"
    by (simp add: make_null_chunk_def wf_chunk_def)
  from first stored second null
  show "\<exists>c st'. get_sfx_resource env rid st = Inr (c, st')
           \<and> c = ?c
           \<and> chunk (resource st' ! rid) = Some c
           \<and> (\<forall>env'. get_sfx_resource env' rid st' = Inr (c, st'))
           \<and> (chunk (resource st ! rid) = None \<and> Mix_LoadWAV env ?p = None
               \<longrightarrow> c = make_null_chunk \<and> abuf c = [] \<and> alen c = 0 \<and> wf_chunk c)"
    by blast
qed

text \<open>
  The file of the only resource decodes to a source of two frames: the second call returns
  it from a mixer that decodes nothing. With that mixer first, both calls return the null
  chunk.
\<close>

theorem get_sfx_resource_cached_witness:
  "paths_interned (ambient_state\<lparr>resource := []\<rparr>)
   \<and> add_sfx_path ''wind.ogg'' (ambient_state\<lparr>resource := []\<rparr>)
       = (0, ambient_state\<lparr>unique_paths := [''wind.ogg'' \<mapsto> 0]\<rparr>)
   \<and> (0::nat) < length (resource ambient_state)
   \<and> chunk (resource ambient_state ! 0) = None
   \<and> Mix_LoadWAV decoding_environment (join_path decoding_environment
        (current_soundpack_path ambient_state) (path (resource ambient_state ! 0)))
       = Some two_frame_source
   \<and> Mix_LoadWAV busy_environment (join_path busy_environment
        (current_soundpack_path ambient_state) (path (resource ambient_state ! 0))) = None
   \<and> (\<exists>st'. get_sfx_resource decoding_environment 0 ambient_state = Inr (two_frame_source, st')
          \<and> get_sfx_resource busy_environment 0 st' = Inr (two_frame_source, st'))
   \<and> (\<exists>st'. get_sfx_resource busy_environment 0 ambient_state = Inr (make_null_chunk, st')
          \<and> get_sfx_resource decoding_environment 0 st' = Inr (make_null_chunk, st'))"
proof -
  have a: "paths_interned (ambient_state\<lparr>resource := []\<rparr>)"
    by (simp add: paths_interned_def ambient_state_def)
  have b: "add_sfx_path ''wind.ogg'' (ambient_state\<lparr>resource := []\<rparr>)
       = (0, ambient_state\<lparr>unique_paths := [''wind.ogg'' \<mapsto> 0]\<rparr>)"
    by (simp add: add_sfx_path_def ambient_state_def)
  have c: "(0::nat) < length (resource ambient_state)"
    by (simp add: ambient_state_def)
  have d: "chunk (resource ambient_state ! 0) = None"
    by (simp add: ambient_state_def)
  have e: "Mix_LoadWAV decoding_environment (join_path decoding_environment
        (current_soundpack_path ambient_state) (path (resource ambient_state ! 0)))
       = Some two_frame_source"
    by (simp add: decoding_environment_def ambient_state_def)
  have f: "Mix_LoadWAV busy_environment (join_path busy_environment
        (current_soundpack_path ambient_state) (path (resource ambient_state ! 0))) = None"
    by (simp add: busy_environment_def)
  from get_sfx_resource_cached [of "ambient_state\<lparr>resource := []\<rparr>" "''wind.ogg''" 0
      "ambient_state\<lparr>unique_paths := [''wind.ogg'' \<mapsto> 0]\<rparr>" 0 ambient_state
      decoding_environment] c
  have g: "\<exists>st'. get_sfx_resource decoding_environment 0 ambient_state
                  = Inr (two_frame_source, st')
          \<and> get_sfx_resource busy_environment 0 st' = Inr (two_frame_source, st')"
    unfolding d e by (simp only: option.case) blast
  from get_sfx_resource_cached [of "ambient_state\<lparr>resource := []\<rparr>" "''wind.ogg''" 0
      "ambient_state\<lparr>unique_paths := [''wind.ogg'' \<mapsto> 0]\<rparr>" 0 ambient_state
      busy_environment] c
  have h: "\<exists>st'. get_sfx_resource busy_environment 0 ambient_state = Inr (make_null_chunk, st')
          \<and> get_sfx_resource decoding_environment 0 st' = Inr (make_null_chunk, st')"
    unfolding d f by (simp only: option.case) blast
  from a b c d e f g h show ?thesis by blast
qed

section \<open>Properties of ambient playback\<close>

text \<open>
  C10. When the requested channel is already playing, \<open>play_ambient_variant_sound\<close>
  returns with the state exactly as it was: no effect is resolved (so not even an unknown
  season can throw), no resource is loaded, no handler is registered and no call reaches
  the mixer.
\<close>

theorem play_ambient_channel_busy:
  assumes "is_channel_playing env channel"
  shows "play_ambient_variant_sound env i v sn is_indoors is_night vol channel fade_in_duration
           pitch loops st = Inr st"
  using assms by (simp add: play_ambient_variant_sound_def)

text \<open>
  The same request on a free channel loads the resource and registers a handler, so it is
  the guard that keeps the state.
\<close>

theorem play_ambient_channel_busy_witness:
  "is_channel_playing busy_environment 3
   \<and> play_ambient_variant_sound busy_environment ''footstep'' ''default'' [] None None 100 3
        500 0 (- 1) ambient_state = Inr ambient_state
   \<and> play_ambient_variant_sound busy_environment ''footstep'' ''default'' [] None None 100 4
        500 0 (- 1) ambient_state \<noteq> Inr ambient_state"
proof -
  have busy: "is_channel_playing busy_environment 3"
    by (simp add: busy_environment_def)
  have free: "play_ambient_variant_sound busy_environment ''footstep'' ''default'' [] None None
        100 4 500 0 (- 1) ambient_state \<noteq> Inr ambient_state"
    by (simp add: play_ambient_variant_sound_def busy_environment_def ambient_state_def
        check_sound_def find_random_effect_def find_footstep_map get_sfx_resource_def
        load_chunk_def make_audio_def int_wrap_def Let_def)
  from play_ambient_channel_busy [OF busy, of "''footstep''" "''default''" "[]" None None 100
      500 0 "- 1" ambient_state] busy free
  show ?thesis by simp
qed


section \<open>Properties of the pitch shifter\<close>

declare window_sum.simps [simp del] pitch_shift_loop.simps [simp del] resample_loop.simps [simp del]

lemma window_sum_acc:
  "window_sum buf j e acc = Inr acc' \<Longrightarrow>
     fst acc' = fst acc + sum_list (map (left_sample buf) [j..<Suc e])
   \<and> snd acc' = snd acc + sum_list (map (right_sample buf) [j..<Suc e])"
proof (induction buf j e acc rule: window_sum.induct)
  case (1 buf j e a b)
  show ?case
  proof (cases "j \<le> e")
    case True
    from "1.prems" True obtain lt rt where
      lt: "byte_pair buf (4 * j) = Inr lt" and rt: "byte_pair buf (4 * j + 2) = Inr rt"
      and rest: "window_sum buf (j + 1) e (a + sint lt, b + sint rt) = Inr acc'"
      by (subst (asm) window_sum.simps) (auto split: sum.splits)
    from "1.IH" [OF True lt rt rest]
    have ih: "fst acc' = a + sint lt + sum_list (map (left_sample buf) [Suc j..<Suc e])"
      "snd acc' = b + sint rt + sum_list (map (right_sample buf) [Suc j..<Suc e])"
      by (simp_all del: upt_Suc)
    have split: "[j..<Suc e] = j # [Suc j..<Suc e]"
      using True by (simp add: upt_conv_Cons del: upt_Suc)
    have l: "left_sample buf j = sint lt" unfolding left_sample_def lt by simp
    have r: "right_sample buf j = sint rt" unfolding right_sample_def rt by simp
    show ?thesis
      unfolding split using ih l r by (simp del: upt_Suc)
  next
    case False
    with "1.prems" show ?thesis by (subst (asm) window_sum.simps) simp
  qed
qed

lemma window_sum_Inr:
  "window_sum buf j e (0, 0) = Inr (a, b) \<Longrightarrow>
     a = sum_list (map (left_sample buf) [j..<Suc e])
   \<and> b = sum_list (map (right_sample buf) [j..<Suc e])"
  using window_sum_acc [of buf j e "(0, 0)" "(a, b)"] by simp

lemma pitch_shift_frame_length:
  "pitch_shift_frame s pr i = Inr frame \<Longrightarrow> length frame = 4"
  by (auto simp: pitch_shift_frame_def split: sum.splits prod.splits)

lemma pitch_shift_loop_Inr:
  "pitch_shift_loop s pr s_out i out = Inr res \<Longrightarrow> i \<le> s_out \<Longrightarrow>
     length res = length out + 4 * (s_out - i)
   \<and> take (length out) res = out
   \<and> (\<forall>k. i \<le> k \<and> k < s_out \<longrightarrow>
         pitch_shift_frame s pr k = Inr (take 4 (drop (length out + 4 * (k - i)) res)))"
proof (induction s pr s_out i out rule: pitch_shift_loop.induct)
  case (1 s pr s_out i out)
  show ?case
  proof (cases "i < s_out")
    case True
    from "1.prems" True obtain frame where
      fr: "pitch_shift_frame s pr i = Inr frame"
      and rest: "pitch_shift_loop s pr s_out (i + 1) (out @ frame) = Inr res"
      by (subst (asm) pitch_shift_loop.simps) (auto split: sum.splits)
    have len: "length frame = 4" using fr by (rule pitch_shift_frame_length)
    from "1.IH" [OF True fr rest] True
    have l: "length res = length (out @ frame) + 4 * (s_out - (i + 1))"
      and t: "take (length (out @ frame)) res = out @ frame"
      and f: "\<forall>k. i + 1 \<le> k \<and> k < s_out \<longrightarrow>
         pitch_shift_frame s pr k
           = Inr (take 4 (drop (length (out @ frame) + 4 * (k - (i + 1))) res))"
      by simp_all
    have l': "length res = length out + 4 * (s_out - i)" using l len True by simp
    have t': "take (length out) res = out"
    proof -
      have "take (length out) res = take (length out) (take (length (out @ frame)) res)"
        by (simp add: min_def)
      then show ?thesis unfolding t by simp
    qed
    have f': "pitch_shift_frame s pr k = Inr (take 4 (drop (length out + 4 * (k - i)) res))"
      if k: "i \<le> k \<and> k < s_out" for k
    proof (cases "k = i")
      case True
      have "take 4 (drop (length out) res)
          = take 4 (drop (length out) (take (length (out @ frame)) res))"
        by (simp add: drop_take len)
      also have "\<dots> = frame" unfolding t using len by simp
      finally show ?thesis using True fr by simp
    next
      case False
      with k have k1: "i + 1 \<le> k \<and> k < s_out" by simp
      have eq: "length (out @ frame) + 4 * (k - (i + 1)) = length out + 4 * (k - i)"
        using k1 len by (simp add: algebra_simps)
      from f k1 have "pitch_shift_frame s pr k
           = Inr (take 4 (drop (length (out @ frame) + 4 * (k - (i + 1))) res))"
        by blast
      then show ?thesis unfolding eq .
    qed
    show ?thesis using l' t' f' by simp
  next
    case False
    with "1.prems" show ?thesis by (subst (asm) pitch_shift_loop.simps) auto
  qed
qed


lemma sample_bytes_roundtrip:
  "word_of_int (push_bit 8 (uint (ucast (drop_bit 8 w) :: 8 word)) OR uint (ucast w :: 8 word))
     = (w :: 16 word)"
  by (rule bit_word_eqI) (auto simp add: bit_simps)

lemma float_to_uint32_Inr:
  "float_to_uint32 x = Inr n \<Longrightarrow> int n = trunc x \<and> n < 2 ^ 32"
  by (auto simp: float_to_uint32_def split: if_splits)

lemma float_to_sint16_Inr:
  "float_to_sint16 x = Inr w \<Longrightarrow> sint w = trunc x"
  by (auto simp: float_to_sint16_def sint_sbintrunc' signed_take_bit_int_eq_self split: if_splits)

lemma trunc_mono: "x \<le> y \<Longrightarrow> trunc x \<le> trunc y"
proof -
  assume xy: "x \<le> y"
  consider "0 \<le> x" | "x < 0" "0 \<le> y" | "x < 0" "y < 0" by linarith
  then show ?thesis
  proof cases
    case 1
    with xy show ?thesis by (simp add: trunc_def floor_mono)
  next
    case 2
    then have "\<lceil>x\<rceil> \<le> 0" "0 \<le> \<lfloor>y\<rfloor>" by (simp_all add: ceiling_le_iff)
    then have "\<lceil>x\<rceil> \<le> \<lfloor>y\<rfloor>" by linarith
    with 2 show ?thesis by (simp add: trunc_def)
  next
    case 3
    with xy show ?thesis by (simp add: trunc_def ceiling_mono)
  qed
qed


lemma f32_nonneg: "0 \<le> x \<Longrightarrow> 0 \<le> f32 x"
  using f32_mono [of 0 x] by simp

lemma f32_eq_0_iff: "f32 x = 0 \<longleftrightarrow> x = 0"
proof
  assume z: "f32 x = 0"
  show "x = 0"
  proof (rule ccontr)
    assume "x \<noteq> 0"
    then consider "0 < x" | "0 < - x" by linarith
    then show False
    proof cases
      case 1 from f32_pos [OF this] z show False by simp
    next
      case 2 from f32_pos [OF this] z show False by (simp add: f32_minus)
    qed
  qed
qed simp

lemma uint32_count:
  assumes "b \<le> e" and "e < 2 ^ 32" and "(e + 2 ^ 32 - b + 1) mod 2 ^ 32 \<noteq> (0::nat)"
  shows "(e + 2 ^ 32 - b + 1) mod 2 ^ 32 = e - b + 1"
proof -
  have eq: "e + 2 ^ 32 - b + 1 = (e - b + 1) + 1 * 2 ^ 32" using assms(1) by simp
  have m: "(e + 2 ^ 32 - b + 1) mod 2 ^ 32 = (e - b + 1) mod 2 ^ 32"
    unfolding eq by (rule mod_mult_self1)
  have "e - b + 1 \<le> 2 ^ 32" using assms(2) by simp
  moreover have "e - b + 1 \<noteq> 2 ^ 32" using assms(3) unfolding m by auto
  ultimately have "e - b + 1 < 2 ^ 32" by simp
  with m show ?thesis by simp
qed

lemma window_mean_Inr:
  assumes "window_mean avg b e = Inr w" and "b \<le> e" and "e < 2 ^ 32"
  shows "sint w = trunc (f32 (f32 (of_int avg) / f32 (of_nat (e - b + 1))))"
proof -
  define n where "n = (e + 2 ^ 32 - b + 1) mod (2 ^ 32 :: nat)"
  from assms(1) have nz: "f32 (of_nat n) \<noteq> 0"
    and w: "float_to_sint16 (f32 (f32 (of_int avg) / f32 (of_nat n))) = Inr w"
    by (auto simp: window_mean_def f32_quotient_def Let_def n_def split: if_splits sum.splits)
  from nz have "n \<noteq> 0" by (auto simp: f32_eq_0_iff)
  then have "n = e - b + 1" unfolding n_def using assms(2,3) by (intro uint32_count)
  with float_to_sint16_Inr [OF w] show ?thesis by simp
qed

lemma window_bounds_Inr:
  assumes "window_bounds s pr i = Inr (b, e)" and "0 \<le> pr"
  shows "b = nat (trunc (f32 (f32 (of_nat i) / pr)))"
    and "e = (let e0 = nat (trunc (f32 (f32 (of_nat (i + 1)) / pr)))
              in if 0 < e0 \<and> chunk_frames s \<le> e0 then b else e0)"
    and "b \<le> e" and "e < 2 ^ 32" and "0 < pr"
proof -
  from assms(1) obtain e0 where pr: "pr \<noteq> 0"
    and b: "float_to_uint32 (f32 (f32 (of_nat i) / pr)) = Inr b"
    and e0: "float_to_uint32 (f32 (f32 (of_nat (i + 1)) / pr)) = Inr e0"
    and e: "e = (if 0 < e0 \<and> chunk_frames s \<le> e0 then b else e0)"
    by (auto simp: window_bounds_def f32_quotient_def chunk_frames_def split: if_splits sum.splits)
  from pr assms(2) show pos: "0 < pr" by simp
  from float_to_uint32_Inr [OF b] show b': "b = nat (trunc (f32 (f32 (of_nat i) / pr)))"
    by linarith
  from float_to_uint32_Inr [OF e0] have e0': "e0 = nat (trunc (f32 (f32 (of_nat (i + 1)) / pr)))"
    by linarith
  from e e0' show "e = (let e0 = nat (trunc (f32 (f32 (of_nat (i + 1)) / pr)))
              in if 0 < e0 \<and> chunk_frames s \<le> e0 then b else e0)"
    by (simp add: Let_def)
  have "f32 (of_nat i) \<le> f32 (of_nat (i + 1))" by (rule f32_mono) simp
  then have "f32 (of_nat i) / pr \<le> f32 (of_nat (i + 1)) / pr"
    using pos by (simp add: divide_right_mono)
  then have "trunc (f32 (f32 (of_nat i) / pr)) \<le> trunc (f32 (f32 (of_nat (i + 1)) / pr))"
    by (intro trunc_mono f32_mono)
  then have "b \<le> e0" unfolding b' e0' by (rule nat_mono)
  with e show "b \<le> e" by simp
  from float_to_uint32_Inr [OF b] float_to_uint32_Inr [OF e0] e show "e < 2 ^ 32"
    by (simp split: if_splits)
qed

lemma pitch_shift_frame_Inr:
  assumes "pitch_shift_frame s pr i = Inr frame" and "0 \<le> pr"
  obtains b e and lt rt :: "16 word" where "window_bounds s pr i = Inr (b, e)"
    and "frame = [ucast lt, ucast (drop_bit 8 lt), ucast rt, ucast (drop_bit 8 rt)]"
    and "sint lt = trunc (f32 (f32 (of_int (sum_list (map (left_sample (abuf s)) [b..<Suc e])))
                                 / f32 (of_nat (e - b + 1))))"
    and "sint rt = trunc (f32 (f32 (of_int (sum_list (map (right_sample (abuf s)) [b..<Suc e])))
                                 / f32 (of_nat (e - b + 1))))"
proof -
  from assms(1) obtain b e la ra lt rt where wb: "window_bounds s pr i = Inr (b, e)"
    and ws: "window_sum (abuf s) b e (0, 0) = Inr (la, ra)"
    and lt: "window_mean la b e = Inr lt" and rt: "window_mean ra b e = Inr rt"
    and fr: "frame = [ucast lt, ucast (drop_bit 8 lt), ucast rt, ucast (drop_bit 8 rt)]"
    by (auto simp: pitch_shift_frame_def split: sum.splits prod.splits)
  note be = window_bounds_Inr(3,4) [OF wb assms(2)]
  from window_sum_Inr [OF ws] have la: "la = sum_list (map (left_sample (abuf s)) [b..<Suc e])"
    and ra: "ra = sum_list (map (right_sample (abuf s)) [b..<Suc e])" by blast+
  show thesis
  proof (rule that [OF wb fr])
    show "sint lt = trunc (f32 (f32 (of_int (sum_list (map (left_sample (abuf s)) [b..<Suc e])))
                                 / f32 (of_nat (e - b + 1))))"
      using window_mean_Inr [OF lt be] unfolding la .
    show "sint rt = trunc (f32 (f32 (of_int (sum_list (map (right_sample (abuf s)) [b..<Suc e])))
                                 / f32 (of_nat (e - b + 1))))"
      using window_mean_Inr [OF rt be] unfolding ra .
  qed
qed


lemma pitch_real_nonneg: "0 \<le> pitch_real_of s pitch"
  unfolding pitch_real_of_def by (intro f32_nonneg divide_nonneg_nonneg) simp_all

lemma do_pitch_shift_Inr:
  assumes "do_pitch_shift s pitch = Inr result"
  shows "float_to_uint32 (f32 (f32 (of_nat (chunk_frames s)) * pitch)) = Inr (shifted_frames s pitch)"
    and "shifted_frames s pitch * 4 < 2 ^ 32"
    and "pitch_shift_loop s (pitch_real_of s pitch) (shifted_frames s pitch) 0 [] = Inr (abuf result)"
    and "alen result = word_of_nat (shifted_frames s pitch * 4)"
    and "allocated result = 1" and "chunk_volume result = chunk_volume s"
proof -
  from assms obtain s_out out where
    so: "float_to_uint32 (f32 (f32 (of_nat (chunk_frames s)) * pitch)) = Inr s_out"
    and lt: "s_out * 4 < 2 ^ 32"
    and loop: "pitch_shift_loop s (f32 (f32 (of_nat s_out) / f32 (of_nat (chunk_frames s)))) s_out 0 []
          = Inr out"
    and res: "result = \<lparr>allocated = 1, abuf = out, alen = word_of_nat (s_out * 4),
                                chunk_volume = chunk_volume s\<rparr>"
    by (auto simp: do_pitch_shift_def chunk_frames_def Let_def split: sum.splits if_splits)
  from float_to_uint32_Inr [OF so] have eq: "s_out = shifted_frames s pitch"
    by (metis nat_int shifted_frames_def)
  from so eq show "float_to_uint32 (f32 (f32 (of_nat (chunk_frames s)) * pitch))
      = Inr (shifted_frames s pitch)" by simp
  from lt eq show "shifted_frames s pitch * 4 < 2 ^ 32" by simp
  from loop eq res show "pitch_shift_loop s (pitch_real_of s pitch) (shifted_frames s pitch) 0 []
      = Inr (abuf result)" by (simp add: pitch_real_of_def)
  from res eq show "alen result = word_of_nat (shifted_frames s pitch * 4)"
    "allocated result = 1" "chunk_volume result = chunk_volume s" by simp_all
qed

lemma do_pitch_shift_length:
  assumes "do_pitch_shift s pitch = Inr result"
  shows "length (abuf result) = 4 * shifted_frames s pitch"
    and "unat (alen result) = length (abuf result)"
proof -
  note r = do_pitch_shift_Inr [OF assms]
  from pitch_shift_loop_Inr [OF r(3)] show l: "length (abuf result) = 4 * shifted_frames s pitch"
    by simp
  define n where "n = shifted_frames s pitch * 4"
  have "unat (word_of_nat n :: 32 word) = n mod 2 ^ 32" by (simp add: unat_of_nat)
  also have "\<dots> = n" using r(2) by (simp add: n_def)
  finally have "unat (word_of_nat (shifted_frames s pitch * 4) :: 32 word)
      = shifted_frames s pitch * 4" unfolding n_def .
  with r(4) l show "unat (alen result) = length (abuf result)" by simp
qed

lemma do_pitch_shift_frame:
  assumes "do_pitch_shift s pitch = Inr result" and "i < shifted_frames s pitch"
  shows "pitch_shift_frame s (pitch_real_of s pitch) i = Inr (take 4 (drop (4 * i) (abuf result)))"
  using pitch_shift_loop_Inr [OF do_pitch_shift_Inr(3) [OF assms(1)]] assms(2) by simp

lemma byte_pair_at:
  assumes "k + 1 < length buf" and "length buf < 2 ^ 32"
    and "buf ! k = ucast w" and "buf ! (k + 1) = ucast (drop_bit 8 w)"
  shows "byte_pair buf k = Inr (w :: 16 word)"
proof -
  have "(k + 1) mod 2 ^ 32 = k + 1" "k mod 2 ^ 32 = k" using assms(1,2) by simp_all
  then show ?thesis
    unfolding byte_pair_def Let_def using assms by (simp add: sample_bytes_roundtrip)
qed

lemma frame_samples:
  fixes lt rt :: "16 word"
  assumes "take 4 (drop (4 * i) buf) = [ucast lt, ucast (drop_bit 8 lt), ucast rt, ucast (drop_bit 8 rt)]"
    and "length buf < 2 ^ 32"
  shows "left_sample buf i = sint lt" and "right_sample buf i = sint rt"
proof -
  let ?fr = "[ucast lt, ucast (drop_bit 8 lt), ucast rt, ucast (drop_bit 8 rt)] :: 8 word list"
  have len: "4 * i + 4 \<le> length buf"
  proof (rule ccontr)
    assume "\<not> 4 * i + 4 \<le> length buf"
    then have "length (take 4 (drop (4 * i) buf)) < 4" by simp
    with assms(1) show False by simp
  qed
  have nth: "buf ! (4 * i + k) = ?fr ! k" if "k < 4" for k
  proof -
    have "?fr ! k = take 4 (drop (4 * i) buf) ! k" using assms(1) by simp
    also have "\<dots> = buf ! (4 * i + k)" using that len by simp
    finally show ?thesis by simp
  qed
  have b0: "buf ! (4 * i) = ucast lt" using nth [of 0] by simp
  have b1: "buf ! (4 * i + 1) = ucast (drop_bit 8 lt)" using nth [of 1] by simp
  have b2: "buf ! (4 * i + 2) = ucast rt" using nth [of 2] by simp
  have "4 * i + 2 + 1 = 4 * i + 3" by simp
  then have b3: "buf ! (4 * i + 2 + 1) = ucast (drop_bit 8 rt)" using nth [of 3] by (simp only:) simp
  have "byte_pair buf (4 * i) = Inr lt"
    by (rule byte_pair_at [OF _ assms(2) b0 b1]) (use len in simp)
  then show "left_sample buf i = sint lt" by (simp add: left_sample_def)
  have "byte_pair buf (4 * i + 2) = Inr rt"
    by (rule byte_pair_at [OF _ assms(2) b2 b3]) (use len in simp)
  then show "right_sample buf i = sint rt" by (simp add: right_sample_def)
qed


lemma chunk_frames_result:
  assumes "do_pitch_shift s pitch = Inr result"
  shows "chunk_frames result = shifted_frames s pitch"
  using do_pitch_shift_length [OF assms] by (simp add: chunk_frames_def)

lemma trunc_of_int [simp]: "trunc (of_int k) = k"
  by (simp add: trunc_def)

lemma trunc_of_nat [simp]: "trunc (of_nat k) = int k"
  using trunc_of_int [of "int k"] by simp

lemma trunc_nonneg: "0 \<le> x \<Longrightarrow> trunc x = \<lfloor>x\<rfloor>"
  by (simp add: trunc_def)

lemma sample_range:
  "- (2 ^ 15) \<le> left_sample buf j" "left_sample buf j < 2 ^ 15"
  "- (2 ^ 15) \<le> right_sample buf j" "right_sample buf j < 2 ^ 15"
proof -
  have r: "- (2 ^ 15) \<le> sint w \<and> sint w < 2 ^ 15" for w :: "16 word"
    using sint_ge [of w] sint_lt [of w] by simp
  show "- (2 ^ 15) \<le> left_sample buf j" "left_sample buf j < 2 ^ 15"
    using r by (auto simp: left_sample_def split: sum.splits)
  show "- (2 ^ 15) \<le> right_sample buf j" "right_sample buf j < 2 ^ 15"
    using r by (auto simp: right_sample_def split: sum.splits)
qed

lemma trunc_half: "trunc (of_int a / 2) = c_div a 2"
proof (cases "0 \<le> a")
  case True
  then have "trunc (of_int a / 2) = \<lfloor>of_int a / (of_int 2 :: rat)\<rfloor>" by (simp add: trunc_def)
  also have "\<dots> = a div 2" by (simp only: floor_divide_of_int_eq)
  finally show ?thesis using True by (simp add: c_div_def)
next
  case False
  then have "trunc (of_int a / 2) = \<lceil>of_int a / (of_int 2 :: rat)\<rceil>" by (simp add: trunc_def)
  also have "\<dots> = - \<lfloor>of_int (- a) / (of_int 2 :: rat)\<rfloor>" by (simp add: ceiling_def)
  also have "\<dots> = - ((- a) div 2)" by (simp only: floor_divide_of_int_eq)
  finally show ?thesis using False by (simp add: c_div_def)
qed

lemma f32_half_int: "\<bar>a\<bar> < 2 ^ 24 \<Longrightarrow> f32 (of_int a / 2) = of_int a / 2"
  by (rule f32_exact [of _ a "- 1"]) (simp_all add: power_int_minus)

lemma f32_of_nat: "n < 2 ^ 24 \<Longrightarrow> f32 (of_nat n) = of_nat n"
  using f32_of_int [of "int n"] by simp

lemma f32_one [simp]: "f32 1 = 1"
  using f32_of_int [of 1] by simp

lemma f32_two [simp]: "f32 2 = 2"
  using f32_of_int [of 2] by simp


lemma pitch_shift_frame_window:
  assumes "do_pitch_shift s pitch = Inr result" and "i < chunk_frames result"
  defines "pr \<equiv> pitch_real_of s pitch"
  defines "b \<equiv> nat (trunc (f32 (f32 (of_nat i) / pr)))"
  defines "e0 \<equiv> nat (trunc (f32 (f32 (of_nat (i + 1)) / pr)))"
  defines "e \<equiv> (if 0 < e0 \<and> chunk_frames s \<le> e0 then b else e0)"
  shows "b \<le> e"
    and "left_sample (abuf result) i
           = trunc (f32 (f32 (of_int (sum_list (map (left_sample (abuf s)) [b..<Suc e])))
                         / f32 (of_nat (e - b + 1))))"
    and "right_sample (abuf result) i
           = trunc (f32 (f32 (of_int (sum_list (map (right_sample (abuf s)) [b..<Suc e])))
                         / f32 (of_nat (e - b + 1))))"
proof -
  have i: "i < shifted_frames s pitch" using assms(2) chunk_frames_result [OF assms(1)] by simp
  note fr = do_pitch_shift_frame [OF assms(1) i]
  have pr0: "0 \<le> pitch_real_of s pitch" by (rule pitch_real_nonneg)
  from pitch_shift_frame_Inr [OF fr pr0] obtain b' e' and lt rt :: "16 word" where
    wb: "window_bounds s (pitch_real_of s pitch) i = Inr (b', e')"
    and bytes: "take 4 (drop (4 * i) (abuf result))
        = [ucast lt, ucast (drop_bit 8 lt), ucast rt, ucast (drop_bit 8 rt)]"
    and lt: "sint lt = trunc (f32 (f32 (of_int (sum_list (map (left_sample (abuf s)) [b'..<Suc e'])))
                                 / f32 (of_nat (e' - b' + 1))))"
    and rt: "sint rt = trunc (f32 (f32 (of_int (sum_list (map (right_sample (abuf s)) [b'..<Suc e'])))
                                 / f32 (of_nat (e' - b' + 1))))"
    by blast
  note w = window_bounds_Inr [OF wb pr0]
  have b': "b' = b" using w(1) by (simp add: b_def pr_def)
  have e': "e' = e" using w(2) b' by (simp add: e_def e0_def pr_def Let_def)
  show "b \<le> e" using w(3) b' e' by simp
  have len: "length (abuf result) < 2 ^ 32"
    using do_pitch_shift_length(1) [OF assms(1)] do_pitch_shift_Inr(2) [OF assms(1)] by simp
  note smp = frame_samples [OF bytes len]
  show "left_sample (abuf result) i
           = trunc (f32 (f32 (of_int (sum_list (map (left_sample (abuf s)) [b..<Suc e])))
                         / f32 (of_nat (e - b + 1))))"
    using smp(1) lt unfolding b' e' by simp
  show "right_sample (abuf result) i
           = trunc (f32 (f32 (of_int (sum_list (map (right_sample (abuf s)) [b..<Suc e])))
                         / f32 (of_nat (e - b + 1))))"
    using smp(2) rt unfolding b' e' by simp
qed

lemma pitch_one_frames:
  assumes "chunk_frames s < 2 ^ 24"
  shows "shifted_frames s 1 = chunk_frames s"
    and "0 < chunk_frames s \<Longrightarrow> pitch_real_of s 1 = 1"
proof -
  show 1: "shifted_frames s 1 = chunk_frames s"
    using assms by (simp add: shifted_frames_def f32_of_nat)
  show "pitch_real_of s 1 = 1" if "0 < chunk_frames s"
    using that assms by (simp add: pitch_real_of_def 1 f32_of_nat)
qed

lemma mean_of_two:
  assumes "- (2 ^ 15) \<le> x" "x < 2 ^ 15" "- (2 ^ 15) \<le> y" "y < (2 ^ 15 :: int)"
  shows "trunc (f32 (f32 (of_int (x + y)) / f32 (of_nat 2))) = c_div (x + y) 2"
proof -
  have a: "\<bar>x + y\<bar> < 2 ^ 24" using assms by simp
  have 1: "f32 (of_int (x + y)) = of_int (x + y)" using a by (rule f32_of_int)
  have 2: "f32 (of_nat 2) = 2" by simp
  have 3: "f32 (of_int (x + y) / 2) = of_int (x + y) / 2" using a by (rule f32_half_int)
  show ?thesis unfolding 1 2 3 by (rule trunc_half)
qed

lemma mean_of_one:
  assumes "- (2 ^ 15) \<le> x" "x < (2 ^ 15 :: int)"
  shows "trunc (f32 (f32 (of_int x) / f32 (of_nat 1))) = x"
proof -
  have "\<bar>x\<bar> < 2 ^ 24" using assms by simp
  then have 1: "f32 (of_int x) = of_int x" by (rule f32_of_int)
  have 2: "f32 (of_nat 1) = 1" by simp
  have 3: "of_int x / (1::rat) = of_int x" by simp
  show ?thesis unfolding 1 2 3 1 by simp
qed

lemma pitch_one_window:
  assumes "i < n"
  shows "i + 1 < n \<Longrightarrow> (if 0 < i + 1 \<and> n \<le> i + 1 then i else i + 1) = i + 1"
    and "\<not> i + 1 < n \<Longrightarrow> (if 0 < i + 1 \<and> n \<le> i + 1 then i else i + 1) = i"
    and "sum_list (map f [i..<Suc (i + 1)]) = f i + (f (i + 1) :: int)"
    and "sum_list (map f [i..<Suc i]) = f i"
    and "i + 1 - i + 1 = (2::nat)" and "i - i + 1 = (1::nat)"
  by (simp_all add: upt_rec)

lemma pitch_one_frame:
  assumes "do_pitch_shift s 1 = Inr result" and "i < chunk_frames result"
    and "chunk_frames s < 2 ^ 24"
  shows "chunk_frames result = chunk_frames s"
    and "left_sample (abuf result) i =
           (if i + 1 < chunk_frames s
            then c_div (left_sample (abuf s) i + left_sample (abuf s) (i + 1)) 2
            else left_sample (abuf s) i)"
    and "right_sample (abuf result) i =
           (if i + 1 < chunk_frames s
            then c_div (right_sample (abuf s) i + right_sample (abuf s) (i + 1)) 2
            else right_sample (abuf s) i)"
proof -
  show n: "chunk_frames result = chunk_frames s"
    using chunk_frames_result [OF assms(1)] pitch_one_frames(1) [OF assms(3)] by simp
  have i: "i < chunk_frames s" using assms(2) n by simp
  then have pr: "pitch_real_of s 1 = 1" by (intro pitch_one_frames(2) [OF assms(3)]) simp
  have fi: "f32 (of_nat i) = of_nat i" "f32 (of_nat (i + 1)) = of_nat (i + 1)"
    using i assms(3) by (simp_all add: f32_of_nat del: of_nat_Suc of_nat_add)
  have b: "nat (trunc (f32 (f32 (of_nat i) / pitch_real_of s 1))) = i"
    unfolding pr fi(1) using i assms(3) by (simp add: f32_of_nat)
  have e0: "nat (trunc (f32 (f32 (of_nat (i + 1)) / pitch_real_of s 1))) = i + 1"
    unfolding pr fi(2) using i assms(3) by (simp add: f32_of_nat del: of_nat_Suc of_nat_add)
  note w = pitch_shift_frame_window(2,3) [OF assms(1,2), unfolded b e0]
  note pw = pitch_one_window [OF i]
  show "left_sample (abuf result) i =
           (if i + 1 < chunk_frames s
            then c_div (left_sample (abuf s) i + left_sample (abuf s) (i + 1)) 2
            else left_sample (abuf s) i)"
  proof (cases "i + 1 < chunk_frames s")
    case True
    have "left_sample (abuf result) i
        = trunc (f32 (f32 (of_int (left_sample (abuf s) i + left_sample (abuf s) (i + 1)))
                      / f32 (of_nat 2)))"
      using w(1) unfolding pw(1) [OF True] pw(3) pw(5) .
    also have "\<dots> = c_div (left_sample (abuf s) i + left_sample (abuf s) (i + 1)) 2"
      by (rule mean_of_two [OF sample_range(1,2) sample_range(1,2)])
    finally show ?thesis using True by (simp only: if_True)
  next
    case False
    have "left_sample (abuf result) i
        = trunc (f32 (f32 (of_int (left_sample (abuf s) i)) / f32 (of_nat 1)))"
      using w(1) unfolding pw(2) [OF False] pw(4) pw(6) .
    also have "\<dots> = left_sample (abuf s) i"
      by (rule mean_of_one [OF sample_range(1,2)])
    finally show ?thesis using False by (simp only: if_False)
  qed
  show "right_sample (abuf result) i =
           (if i + 1 < chunk_frames s
            then c_div (right_sample (abuf s) i + right_sample (abuf s) (i + 1)) 2
            else right_sample (abuf s) i)"
  proof (cases "i + 1 < chunk_frames s")
    case True
    have "right_sample (abuf result) i
        = trunc (f32 (f32 (of_int (right_sample (abuf s) i + right_sample (abuf s) (i + 1)))
                      / f32 (of_nat 2)))"
      using w(2) unfolding pw(1) [OF True] pw(3) pw(5) .
    also have "\<dots> = c_div (right_sample (abuf s) i + right_sample (abuf s) (i + 1)) 2"
      by (rule mean_of_two [OF sample_range(3,4) sample_range(3,4)])
    finally show ?thesis using True by (simp only: if_True)
  next
    case False
    have "right_sample (abuf result) i
        = trunc (f32 (f32 (of_int (right_sample (abuf s) i)) / f32 (of_nat 1)))"
      using w(2) unfolding pw(2) [OF False] pw(4) pw(6) .
    also have "\<dots> = right_sample (abuf s) i"
      by (rule mean_of_one [OF sample_range(3,4)])
    finally show ?thesis using False by (simp only: if_False)
  qed
qed

lemma f32_values:
  "f32 0 = 0" "f32 1 = 1" "f32 2 = 2" "f32 3 = 3" "f32 4 = 4"
  "f32 (15 / 4) = 15 / 4" "f32 (3 / 4) = 3 / 4"
  "f32 (4 / 3) = 11184811 / 8388608" "f32 (8 / 3) = 11184811 / 4194304"
  "f32 30 = 30" "f32 50 = 50" "f32 (- 30) = - 30" "f32 (- 50) = - 50"
  "f32 15 = 15" "f32 25 = 25" "f32 (- 15) = - 15" "f32 (- 25) = - 25"
  "f32 100 = 100" "f32 (- 100) = - 100"
  by code_simp+


lemma floor_rat_numeral:
  "\<lfloor>numeral a / numeral b :: rat\<rfloor> = numeral a div numeral b"
  "\<lfloor>- (numeral a / numeral b) :: rat\<rfloor> = - numeral a div numeral b"
  "\<lceil>numeral a / numeral b :: rat\<rceil> = - (- numeral a div numeral b)"
  "\<lceil>- (numeral a / numeral b) :: rat\<rceil> = - (numeral a div numeral b)"
proof -
  show 1: "\<lfloor>numeral a / numeral b :: rat\<rfloor> = numeral a div numeral b"
    by (metis floor_divide_of_int_eq of_int_numeral)
  show 2: "\<lfloor>- (numeral a / numeral b) :: rat\<rfloor> = - numeral a div numeral b"
    by (metis floor_divide_of_int_eq of_int_numeral of_int_minus minus_divide_left)
  show "\<lceil>numeral a / numeral b :: rat\<rceil> = - (- numeral a div numeral b)"
    unfolding ceiling_def 2 ..
  show "\<lceil>- (numeral a / numeral b) :: rat\<rceil> = - (numeral a div numeral b)"
    unfolding ceiling_def by (simp add: 1)
qed

lemmas pitch_eval = do_pitch_shift_def pitch_shift_loop.simps pitch_shift_frame_def
  window_bounds_def window_sum.simps window_mean_def f32_quotient_def float_to_uint32_def
  float_to_sint16_def byte_pair_def trunc_def Let_def floor_rat_numeral


lemma do_pitch_shift_four_frames:
  "do_pitch_shift four_frames (15 / 16) = Inr shifted_three"
  "do_pitch_shift four_frames (3 / 4) = Inr shifted_three"
  by (simp_all add: pitch_eval four_frames_def shifted_three_def f32_values)

lemma do_pitch_shift_two_frames:
  "do_pitch_shift two_frames 1 = Inr averaged_two"
  by (simp add: pitch_eval two_frames_def averaged_two_def f32_values)

lemma two_frames_samples:
  "chunk_frames two_frames = 2" "chunk_frames averaged_two = 2"
  "left_sample (abuf two_frames) 0 = 0" "left_sample (abuf two_frames) 1 = 100"
  "left_sample (abuf averaged_two) 0 = 50"
  by (simp_all add: chunk_frames_def left_sample_def byte_pair_def two_frames_def averaged_two_def)

section \<open>The pitch shifter returns a buffer\<close>

text \<open>
  Single-precision rounding moves a number by half a unit in the last place at most, that
  is by a factor between \<open>1 - 2^-24\<close> and \<open>1 + 2^-24\<close>.
\<close>

lemma round_half_even_err:
  "q - 1 / 2 \<le> of_int (round_half_even q)" "of_int (round_half_even q) \<le> q + 1 / 2"
proof -
  define f where "f = \<lfloor>q\<rfloor>"
  have a: "of_int f \<le> q" "q < of_int f + 1" unfolding f_def by linarith+
  have r: "round_half_even q =
      (if q - of_int f < 1 / 2 then f else if 1 / 2 < q - of_int f then f + 1
       else if even f then f else f + 1)"
    by (simp add: round_half_even_def Let_def f_def)
  show "q - 1 / 2 \<le> of_int (round_half_even q)"
    unfolding r using a by (auto split: if_splits)
  show "of_int (round_half_even q) \<le> q + 1 / 2"
    unfolding r using a by (auto split: if_splits)
qed

lemma f32_abs_err: "x - ulp x / 2 \<le> f32 x" "f32 x \<le> x + ulp x / 2"
proof -
  have u: "0 < ulp x" by simp
  have both: "x - ulp x / 2 \<le> f32 x \<and> f32 x \<le> x + ulp x / 2"
  proof (cases "x = 0")
    case True
    then show ?thesis using u by simp
  next
    case False
    define q where "q = x / ulp x"
    have "ulp x \<noteq> 0" using u by linarith
    then have x: "x = q * ulp x" by (simp add: q_def)
    have f: "f32 x = of_int (round_half_even q) * ulp x" using False by (simp add: f32_ulp q_def)
    have "(q - 1 / 2) * ulp x \<le> of_int (round_half_even q) * ulp x"
      using round_half_even_err(1) [of q] u by (intro mult_right_mono) simp_all
    moreover have "of_int (round_half_even q) * ulp x \<le> (q + 1 / 2) * ulp x"
      using round_half_even_err(2) [of q] u by (intro mult_right_mono) simp_all
    moreover have "(q - 1 / 2) * ulp x = x - ulp x / 2" "(q + 1 / 2) * ulp x = x + ulp x / 2"
      using x by (simp_all add: algebra_simps)
    ultimately show ?thesis unfolding f by simp
  qed
  from both show "x - ulp x / 2 \<le> f32 x" "f32 x \<le> x + ulp x / 2" by simp_all
qed

lemma ulp_le:
  assumes "0 < x"
  shows "ulp x * 2 ^ 23 \<le> x"
proof -
  have u: "0 < ulp x" by simp
  from mantissa_bounds(1) [OF assms] have "2 ^ 23 \<le> x / ulp x" .
  then have "2 ^ 23 * ulp x \<le> x" using u by (simp only: pos_le_divide_eq)
  then show ?thesis by (simp add: mult.commute)
qed

lemma f32_rel_err:
  assumes "0 < x"
  shows "x * (1 - 1 / 2 ^ 24) \<le> f32 x" and "f32 x \<le> x * (1 + 1 / 2 ^ 24)"
proof -
  from ulp_le [OF assms] have "ulp x \<le> x / 2 ^ 23" by (simp add: pos_le_divide_eq)
  then have h: "ulp x / 2 \<le> x / 2 ^ 24" by simp
  have "x * (1 - 1 / 2 ^ 24) = x - x / 2 ^ 24" by (simp add: algebra_simps)
  also have "\<dots> \<le> x - ulp x / 2" using h by simp
  also have "\<dots> \<le> f32 x" by (rule f32_abs_err)
  finally show "x * (1 - 1 / 2 ^ 24) \<le> f32 x" .
  have "f32 x \<le> x + ulp x / 2" by (rule f32_abs_err)
  also have "\<dots> \<le> x + x / 2 ^ 24" using h by simp
  also have "\<dots> = x * (1 + 1 / 2 ^ 24)" by (simp add: algebra_simps)
  finally show "f32 x \<le> x * (1 + 1 / 2 ^ 24)" .
qed

lemma mantissa_int:
  assumes "f32 x = x" and "0 < x"
  obtains m where "x = of_int m * ulp x" and "2 ^ 23 \<le> m" and "m < 2 ^ 24"
proof -
  from representable_grid [OF assms] obtain m where m: "x = of_int m * ulp x" ..
  have u: "ulp x \<noteq> 0" using ulp_pos [of x] by linarith
  from m have "x / ulp x = (of_int m * ulp x) / ulp x"
    by (rule arg_cong [where f = "\<lambda>t. t / ulp x"])
  with u have q: "x / ulp x = of_int m" by simp
  from mantissa_bounds [OF assms(2)] have "(2 ^ 23 :: rat) \<le> of_int m" "(of_int m :: rat) < 2 ^ 24"
    unfolding q by simp_all
  then have "(of_int (2 ^ 23) :: rat) \<le> of_int m" "(of_int m :: rat) < of_int (2 ^ 24)"
    by simp_all
  then have "2 ^ 23 \<le> m" "m < 2 ^ 24" by (simp_all only: of_int_le_iff of_int_less_iff)
  with m show thesis by (rule that)
qed

lemma float_below:
  assumes "f32 x = x" and "0 < x"
  shows "f32 (x - ulp x) = x - ulp x" and "x - ulp x < x" and "x * (1 - 1 / 2 ^ 23) \<le> x - ulp x"
proof -
  from mantissa_int [OF assms] obtain m where
    m: "x = of_int m * ulp x" and lo: "2 ^ 23 \<le> m" and hi: "m < 2 ^ 24" .
  have e: "x - ulp x = of_int (m - 1) * 2 powi (floor_log2 \<bar>x\<bar> - 23)"
    using m by (simp add: ulp_def algebra_simps)
  have "\<bar>m - 1\<bar> < 2 ^ 24" using lo hi by simp
  with e show "f32 (x - ulp x) = x - ulp x" by (rule f32_exact)
  show "x - ulp x < x" by simp
  from ulp_le [OF assms(2)] have "ulp x \<le> x / 2 ^ 23" by (simp add: pos_le_divide_eq)
  then show "x * (1 - 1 / 2 ^ 23) \<le> x - ulp x" by (simp add: algebra_simps)
qed

lemma ulp_small:
  assumes "0 < x" and "x < 2 ^ 23"
  shows "ulp x \<le> 1 / 2"
proof -
  have "2 powi (floor_log2 x) \<le> x" using assms(1) by (rule floor_log2_bounds)
  also have "x < 2 powi 23" using assms(2) by simp
  finally have "floor_log2 x < 23" by (rule powi_less_cancel)
  then have "(2::rat) powi (floor_log2 x - 23) \<le> 2 powi (- 1)" by (intro powi_mono) simp
  then show ?thesis using assms(1) by (simp add: ulp_def power_int_minus)
qed

text \<open>
  For a source of fewer than \<open>2^24\<close> frames and at most \<open>2^22\<close> output frames the window
  of every output frame begins inside the source: the last \<open>begin\<close> stays below the
  number of input frames although \<open>pitch_real\<close> is a rounded quotient.
\<close>

lemma pitch_real_bounds:
  fixes n so :: nat
  assumes "0 < n" and "n < 2 ^ 24" and "0 < so" and "so \<le> 2 ^ 22"
    and "pr = f32 (f32 (of_nat so) / f32 (of_nat n))"
  shows "0 < pr" and "of_nat so / of_nat n * (1 - 1 / 2 ^ 24) \<le> pr"
proof -
  have fn: "f32 (of_nat n) = of_nat n" using assms(2) by (rule f32_of_nat)
  have "so < 2 ^ 24" using assms(4) by simp
  then have fs: "f32 (of_nat so) = of_nat so" by (rule f32_of_nat)
  have y: "(0::rat) < of_nat so / of_nat n" using assms(1,3) by simp
  show "0 < pr" unfolding assms(5) fn fs using y by (rule f32_pos)
  show "of_nat so / of_nat n * (1 - 1 / 2 ^ 24) \<le> pr"
    unfolding assms(5) fn fs using y by (rule f32_rel_err)
qed

lemma begin_below:
  fixes n so a :: nat
  assumes "0 < n" and "n < 2 ^ 24" and "0 < so" and "so \<le> 2 ^ 22"
    and "pr = f32 (f32 (of_nat so) / f32 (of_nat n))" and "a < so"
  shows "f32 (f32 (of_nat a) / pr) < of_nat n"
proof -
  define n' :: rat where "n' = of_nat n"
  define so' :: rat where "so' = of_nat so"
  define y where "y = so' / n'"
  define c1 :: rat where "c1 = 1 - 1 / 2 ^ 23"
  define c2 :: rat where "c2 = 1 - 1 / 2 ^ 24"
  define z where "z = n' - ulp n'"
  note pb = pitch_real_bounds [OF assms(1-5)]
  have n0: "0 < n'" using assms(1) by (simp add: n'_def)
  have s0: "0 < so'" using assms(3) by (simp add: so'_def)
  have s22: "so' \<le> 2 ^ 22"
  proof -
    have "of_nat so \<le> (of_nat (2 ^ 22) :: rat)" using assms(4) by (simp only: of_nat_le_iff)
    then show ?thesis by (simp add: so'_def)
  qed
  have fn: "f32 n' = n'" unfolding n'_def using assms(2) by (rule f32_of_nat)
  have "a < 2 ^ 24" using assms(4,6) by simp
  then have fa: "f32 (of_nat a) = of_nat a" by (rule f32_of_nat)
  note fb = float_below [OF fn n0, folded z_def c1_def]
  have c10: "0 \<le> c1" "0 \<le> c2" by (simp_all add: c1_def c2_def)
  have y0: "0 < y" using n0 s0 by (simp add: y_def)
  have pr: "y * c2 \<le> pr" using pb(2) by (simp add: y_def so'_def n'_def c2_def)
  have z0: "0 \<le> z" using fb(3) n0 c10(1) by (meson mult_nonneg_nonneg less_imp_le order_trans)
  have "(n' * c1) * (y * c2) \<le> z * pr"
    using fb(3) pr z0 by (intro mult_mono) (use y0 c10 in simp_all)
  moreover have "(n' * c1) * (y * c2) = so' * (c1 * c2)" using n0 by (simp add: y_def)
  moreover have "1 - 3 / 2 ^ 24 \<le> c1 * c2" by (simp add: c1_def c2_def)
  then have "so' * (1 - 3 / 2 ^ 24) \<le> so' * (c1 * c2)" using s0 by (intro mult_left_mono) simp_all
  moreover have "so' - 1 \<le> so' * (1 - 3 / 2 ^ 24)" using s22 by (simp add: algebra_simps)
  moreover have "of_nat a \<le> so' - 1"
  proof -
    have "a + 1 \<le> so" using assms(6) by simp
    then have "(of_nat (a + 1) :: rat) \<le> of_nat so" by (simp only: of_nat_le_iff)
    then show ?thesis by (simp add: so'_def)
  qed
  ultimately have "of_nat a \<le> z * pr" by linarith
  then have "of_nat a / pr \<le> z" using pb(1) by (simp add: pos_divide_le_eq)
  then have "f32 (of_nat a / pr) \<le> f32 z" by (rule f32_mono)
  then have "f32 (of_nat a / pr) < n'" using fb(1,2) by simp
  then show ?thesis unfolding fa n'_def .
qed

lemma end_bounded:
  fixes n so i :: nat
  assumes "0 < n" and "n < 2 ^ 24" and "0 < so" and "so \<le> 2 ^ 22"
    and "pr = f32 (f32 (of_nat so) / f32 (of_nat n))" and "i < so"
  shows "f32 (f32 (of_nat (i + 1)) / pr) \<le> 2 ^ 25"
proof -
  define n' :: rat where "n' = of_nat n"
  define so' :: rat where "so' = of_nat so"
  note pb = pitch_real_bounds [OF assms(1-5)]
  have n0: "0 < n'" using assms(1) by (simp add: n'_def)
  have s0: "0 < so'" using assms(3) by (simp add: so'_def)
  have n24: "n' \<le> 2 ^ 24"
  proof -
    have "of_nat n \<le> (of_nat (2 ^ 24) :: rat)" using assms(2) by (simp only: of_nat_le_iff)
    then show ?thesis by (simp add: n'_def)
  qed
  have "i + 1 < 2 ^ 24" using assms(4,6) by simp
  then have fi: "f32 (of_nat (i + 1)) = of_nat (i + 1)" by (rule f32_of_nat)
  have i1: "(of_nat (i + 1) :: rat) \<le> so'"
  proof -
    have "i + 1 \<le> so" using assms(6) by simp
    then show ?thesis unfolding so'_def by (simp only: of_nat_le_iff)
  qed
  have "so' / n' * (1 / 2) \<le> so' / n' * (1 - 1 / 2 ^ 24)"
    using n0 s0 by (intro mult_left_mono) simp_all
  with pb(2) have "so' / n' * (1 / 2) \<le> pr" unfolding so'_def n'_def by linarith
  then have "so' \<le> 2 * n' * pr" using n0 by (simp add: field_simps)
  with i1 have "of_nat (i + 1) \<le> (2 * n') * pr" by linarith
  then have "of_nat (i + 1) / pr \<le> 2 * n'" using pb(1) by (simp add: pos_divide_le_eq)
  also have "\<dots> \<le> 2 ^ 25" using n24 by simp
  finally have "f32 (of_nat (i + 1) / pr) \<le> f32 (2 ^ 25)" by (rule f32_mono)
  moreover have "f32 (2 ^ 25) = 2 ^ 25" using f32_of_int [of "2 ^ 25"] f32_exact [of "2 ^ 25" 1 25]
    by (simp add: power_int_def)
  ultimately show ?thesis unfolding fi by simp
qed

lemma window_bounds_total:
  fixes so i :: nat
  assumes "0 < chunk_frames s" and "chunk_frames s < 2 ^ 24" and "0 < so" and "so \<le> 2 ^ 22"
    and "pr = f32 (f32 (of_nat so) / f32 (of_nat (chunk_frames s)))" and "i < so"
  shows "\<exists>b e. window_bounds s pr i = Inr (b, e) \<and> b \<le> e \<and> e < chunk_frames s"
proof -
  define n where "n = chunk_frames s"
  note a = assms [folded n_def]
  note pb = pitch_real_bounds [OF a(1-5)]
  define xb where "xb = f32 (f32 (of_nat i) / pr)"
  define xe where "xe = f32 (f32 (of_nat (i + 1)) / pr)"
  have xb0: "0 \<le> xb" unfolding xb_def using pb(1)
    by (intro f32_nonneg divide_nonneg_nonneg) simp_all
  have xe0: "0 \<le> xe" unfolding xe_def using pb(1)
    by (intro f32_nonneg divide_nonneg_nonneg) simp_all
  have xbn: "xb < of_nat n" unfolding xb_def using a(1-6) by (rule begin_below)
  have xe25: "xe \<le> 2 ^ 25" unfolding xe_def using a(1-6) by (rule end_bounded)
  have "f32 (of_nat i) \<le> f32 (of_nat (i + 1))" by (rule f32_mono) simp
  then have "f32 (of_nat i) / pr \<le> f32 (of_nat (i + 1)) / pr"
    using pb(1) by (simp add: divide_right_mono)
  then have xbe: "xb \<le> xe" unfolding xb_def xe_def by (rule f32_mono)
  define B where "B = \<lfloor>xb\<rfloor>"
  define E where "E = \<lfloor>xe\<rfloor>"
  have tb: "trunc xb = B" "trunc xe = E" using xb0 xe0 by (simp_all add: trunc_def B_def E_def)
  have b0: "0 \<le> B" "0 \<le> E" using xb0 xe0 by (simp_all add: B_def E_def)
  have bn: "B < int n" unfolding B_def using xbn by (simp add: floor_less_iff)
  have "\<lfloor>xe\<rfloor> \<le> \<lfloor>2 ^ 25 :: rat\<rfloor>" using xe25 by (rule floor_mono)
  then have e25: "E \<le> 2 ^ 25" unfolding E_def by simp
  have be: "B \<le> E" unfolding B_def E_def using xbe by (rule floor_mono)
  have n24: "int n < 2 ^ 24" using a(2) by simp
  have ub: "float_to_uint32 xb = Inr (nat B)"
    unfolding float_to_uint32_def tb using b0(1) bn n24 by simp
  have ue: "float_to_uint32 xe = Inr (nat E)"
    unfolding float_to_uint32_def tb using b0(2) e25 by simp
  define e where "e = (if nat E > 0 \<and> nat E \<ge> n then nat B else nat E)"
  have w: "window_bounds s pr i = Inr (nat B, e)"
    using pb(1) unfolding window_bounds_def f32_quotient_def xb_def [symmetric] xe_def [symmetric]
    by (simp add: ub ue e_def n_def chunk_frames_def)
  have "nat B \<le> nat E" using be by (rule nat_mono)
  then have "nat B \<le> e" by (simp add: e_def)
  moreover have "e < n" using bn b0 a(1) by (auto simp: e_def)
  ultimately show ?thesis using w unfolding n_def by blast
qed

lemma byte_pair_total:
  assumes "k + 1 < length buf" and "length buf < 2 ^ 32"
  shows "\<exists>w. byte_pair buf k = Inr w"
proof -
  have "(k + 1) mod 2 ^ 32 = k + 1" "k mod 2 ^ 32 = k" using assms by simp_all
  then show ?thesis unfolding byte_pair_def Let_def using assms(1) by simp
qed

lemma window_sum_total:
  assumes "e < n" and "4 * n \<le> length buf" and "length buf < 2 ^ 32"
  shows "\<exists>a b. window_sum buf j e acc = Inr (a, b)"
  using assms
proof (induction buf j e acc rule: window_sum.induct)
  case (1 buf j e a b)
  show ?case
  proof (cases "j \<le> e")
    case True
    then have "4 * j + 3 < length buf" using "1.prems"(1,2) by linarith
    then have k: "4 * j + 1 < length buf" "4 * j + 2 + 1 < length buf" by simp_all
    from byte_pair_total [OF k(1) "1.prems"(3)] obtain lt where
      lt: "byte_pair buf (4 * j) = Inr lt" ..
    from byte_pair_total [OF k(2) "1.prems"(3)] obtain rt where
      rt: "byte_pair buf (4 * j + 2) = Inr rt" ..
    from "1.IH" [OF True lt rt "1.prems"]
    obtain a' b' where "window_sum buf (j + 1) e (a + sint lt, b + sint rt) = Inr (a', b')"
      by blast
    then have "window_sum buf j e (a, b) = Inr (a', b')"
      by (subst window_sum.simps) (simp only: True lt rt sum.case, simp)
    then show ?thesis by blast
  next
    case False
    have "window_sum buf j e (a, b) = Inr (a, b)"
      by (subst window_sum.simps) (simp only: False if_False)
    then show ?thesis by blast
  qed
qed

lemma sum_list_bounds:
  fixes f :: "'a \<Rightarrow> int"
  assumes "\<And>x. lo \<le> f x" and "\<And>x. f x \<le> hi"
  shows "lo * int (length xs) \<le> sum_list (map f xs)"
    and "sum_list (map f xs) \<le> hi * int (length xs)"
proof -
  show "lo * int (length xs) \<le> sum_list (map f xs)"
  proof (induction xs)
    case Nil show ?case by simp
  next
    case (Cons x xs)
    with assms(1) [of x] show ?case by (simp add: algebra_simps)
  qed
  show "sum_list (map f xs) \<le> hi * int (length xs)"
  proof (induction xs)
    case Nil show ?case by simp
  next
    case (Cons x xs)
    with assms(2) [of x] show ?case by (simp add: algebra_simps)
  qed
qed

lemma window_sample_bounds:
  assumes "b \<le> e"
  shows "- 32768 * int (e - b + 1) \<le> sum_list (map (left_sample buf) [b..<Suc e])"
    and "sum_list (map (left_sample buf) [b..<Suc e]) \<le> 32767 * int (e - b + 1)"
    and "- 32768 * int (e - b + 1) \<le> sum_list (map (right_sample buf) [b..<Suc e])"
    and "sum_list (map (right_sample buf) [b..<Suc e]) \<le> 32767 * int (e - b + 1)"
proof -
  have len: "length [b..<Suc e] = e - b + 1" using assms by simp
  have l: "- 32768 \<le> left_sample buf x" "left_sample buf x \<le> 32767" for x
    using sample_range(1,2) [of buf x] by simp_all
  have r: "- 32768 \<le> right_sample buf x" "right_sample buf x \<le> 32767" for x
    using sample_range(3,4) [of buf x] by simp_all
  show "- 32768 * int (e - b + 1) \<le> sum_list (map (left_sample buf) [b..<Suc e])"
    using sum_list_bounds(1) [of "- 32768" "left_sample buf" 32767 "[b..<Suc e]", OF l]
    unfolding len .
  show "sum_list (map (left_sample buf) [b..<Suc e]) \<le> 32767 * int (e - b + 1)"
    using sum_list_bounds(2) [of "- 32768" "left_sample buf" 32767 "[b..<Suc e]", OF l]
    unfolding len .
  show "- 32768 * int (e - b + 1) \<le> sum_list (map (right_sample buf) [b..<Suc e])"
    using sum_list_bounds(1) [of "- 32768" "right_sample buf" 32767 "[b..<Suc e]", OF r]
    unfolding len .
  show "sum_list (map (right_sample buf) [b..<Suc e]) \<le> 32767 * int (e - b + 1)"
    using sum_list_bounds(2) [of "- 32768" "right_sample buf" 32767 "[b..<Suc e]", OF r]
    unfolding len .
qed

lemma window_mean_total:
  fixes b e n :: nat
  assumes "b \<le> e" and "e < n" and "n < 2 ^ 24"
    and "- 32768 * int (e - b + 1) \<le> avg" and "avg \<le> 32767 * int (e - b + 1)"
  shows "\<exists>w. window_mean avg b e = Inr w"
proof -
  define c where "c = e - b + 1"
  define c' :: rat where "c' = of_nat c"
  have c24: "c < 2 ^ 24" using assms(1,2,3) by (simp add: c_def)
  have c0: "0 < c'" by (simp add: c'_def c_def)
  have eq: "e + 2 ^ 32 - b + 1 = c + 1 * 2 ^ 32" using assms(1) by (simp add: c_def)
  have "(e + 2 ^ 32 - b + 1) mod 2 ^ 32 = c mod 2 ^ 32" unfolding eq by (rule mod_mult_self1)
  also have "\<dots> = c" using c24 by simp
  finally have cnt: "(e + 2 ^ 32 - b + 1) mod 2 ^ 32 = c" .
  have fc: "f32 (of_nat c) = c'" unfolding c'_def using c24 by (rule f32_of_nat)
  define x where "x = f32 (f32 (of_int avg) / c')"
  have hi: "x \<le> 65535 / 2"
  proof -
    have "(of_int avg :: rat) \<le> of_int (32767 * int c)"
      using assms(5) unfolding c_def by (simp only: of_int_le_iff)
    then have "(of_int avg :: rat) \<le> 32767 * c'" by (simp add: c'_def)
    then have "f32 (of_int avg) \<le> f32 (32767 * c')" by (rule f32_mono)
    also have "\<dots> \<le> 32767 * c' * (1 + 1 / 2 ^ 24)" using c0 by (intro f32_rel_err) simp
    finally have le: "f32 (of_int avg) \<le> 32767 * c' * (1 + 1 / 2 ^ 24)" .
    have "f32 (of_int avg) / c' \<le> (32767 * c' * (1 + 1 / 2 ^ 24)) / c'"
      by (rule divide_right_mono [OF le]) (use c0 in simp)
    also have "\<dots> = 32767 * (1 + 1 / 2 ^ 24)" using c0 by simp
    also have "\<dots> \<le> 65535 / 2" by simp
    finally have "x \<le> f32 (65535 / 2)" unfolding x_def by (rule f32_mono)
    moreover have "f32 (65535 / 2) = 65535 / 2"
      by (rule f32_exact [of _ 65535 "- 1"]) (simp_all add: power_int_minus)
    ultimately show ?thesis by simp
  qed
  have lo: "- 32768 \<le> x"
  proof -
    have "(of_int (- 32768 * int c) :: rat) \<le> of_int avg"
      using assms(4) unfolding c_def by (simp only: of_int_le_iff)
    then have "- (32768 * c') \<le> (of_int avg :: rat)" by (simp add: c'_def)
    then have "f32 (- (32768 * c')) \<le> f32 (of_int avg)" by (rule f32_mono)
    moreover have "f32 (32768 * c') = 32768 * c'"
      by (rule f32_exact [of _ "int c" 15]) (use c24 in \<open>simp_all add: c'_def power_int_def\<close>)
    ultimately have ge: "- (32768 * c') \<le> f32 (of_int avg)" by (simp add: f32_minus)
    have "- (32768 * c') / c' \<le> f32 (of_int avg) / c'"
      by (rule divide_right_mono [OF ge]) (use c0 in simp)
    moreover have "- (32768 * c') / c' = - 32768" using c0 by simp
    ultimately have "- 32768 \<le> f32 (of_int avg) / c'" by simp
    then have "f32 (- 32768) \<le> x" unfolding x_def by (rule f32_mono)
    moreover have "f32 (- 32768) = - 32768" using f32_of_int [of "- 32768"] by simp
    ultimately show ?thesis by simp
  qed
  have "trunc (- 32768) \<le> trunc x" using lo by (rule trunc_mono)
  then have t1: "- 32768 \<le> trunc x" using trunc_of_int [of "- 32768"] by simp
  have "trunc x \<le> trunc (65535 / 2)" using hi by (rule trunc_mono)
  moreover have "trunc (65535 / 2 :: rat) = 32767" by (simp add: trunc_def floor_rat_numeral)
  ultimately have t2: "trunc x < 32768" by simp
  have "float_to_sint16 x = Inr (word_of_int (trunc x))"
    using t1 t2 by (simp add: float_to_sint16_def)
  then show ?thesis
    unfolding window_mean_def Let_def cnt fc f32_quotient_def x_def using c0 by simp
qed

lemma pitch_shift_frame_total:
  fixes so i :: nat
  assumes "wf_chunk s" and "0 < chunk_frames s" and "chunk_frames s < 2 ^ 24"
    and "0 < so" and "so \<le> 2 ^ 22"
    and "pr = f32 (f32 (of_nat so) / f32 (of_nat (chunk_frames s)))" and "i < so"
  shows "\<exists>frame. pitch_shift_frame s pr i = Inr frame"
proof -
  from window_bounds_total [OF assms(2-7)] obtain b e where
    wb: "window_bounds s pr i = Inr (b, e)" and be: "b \<le> e" and en: "e < chunk_frames s"
    by blast
  have len: "4 * chunk_frames s \<le> length (abuf s)" "length (abuf s) < 2 ^ 32"
    using assms(1) by (simp_all add: wf_chunk_def chunk_frames_def)
  from window_sum_total [OF en len] obtain la ra where
    ws: "window_sum (abuf s) b e (0, 0) = Inr (la, ra)" by blast
  from window_sum_Inr [OF ws] have la: "la = sum_list (map (left_sample (abuf s)) [b..<Suc e])"
    and ra: "ra = sum_list (map (right_sample (abuf s)) [b..<Suc e])" by blast+
  note sb = window_sample_bounds [OF be, of "abuf s"]
  from window_mean_total [OF be en assms(3) sb(1,2) [folded la]] obtain lt where
    lt: "window_mean la b e = Inr lt" ..
  from window_mean_total [OF be en assms(3) sb(3,4) [folded ra]] obtain rt where
    rt: "window_mean ra b e = Inr rt" ..
  show ?thesis by (simp add: pitch_shift_frame_def wb ws lt rt)
qed

lemma pitch_shift_loop_total:
  assumes "\<And>k. i \<le> k \<Longrightarrow> k < so \<Longrightarrow> \<exists>frame. pitch_shift_frame s pr k = Inr frame"
  shows "\<exists>res. pitch_shift_loop s pr so i out = Inr res"
  using assms
proof (induction s pr so i out rule: pitch_shift_loop.induct)
  case (1 s pr so i out)
  show ?case
  proof (cases "i < so")
    case True
    from "1.prems" [of i] True obtain frame where fr: "pitch_shift_frame s pr i = Inr frame"
      by auto
    have "\<exists>res. pitch_shift_loop s pr so (i + 1) (out @ frame) = Inr res"
      by (rule "1.IH" [OF True fr]) (use "1.prems" in simp)
    then obtain res where "pitch_shift_loop s pr so (i + 1) (out @ frame) = Inr res" ..
    then have "pitch_shift_loop s pr so i out = Inr res"
      by (subst pitch_shift_loop.simps) (simp only: True fr sum.case, simp)
    then show ?thesis ..
  next
    case False
    have "pitch_shift_loop s pr so i out = Inr out"
      by (subst pitch_shift_loop.simps) (simp only: False if_False)
    then show ?thesis ..
  qed
qed

lemma shifted_frames_bound:
  assumes "chunk_frames s < 2 ^ 24" and "0 \<le> pitch"
    and "of_nat (chunk_frames s) * pitch \<le> 2 ^ 22"
  shows "0 \<le> f32 (f32 (of_nat (chunk_frames s)) * pitch)"
    and "f32 (f32 (of_nat (chunk_frames s)) * pitch) \<le> 2 ^ 22"
    and "shifted_frames s pitch \<le> 2 ^ 22"
    and "float_to_uint32 (f32 (f32 (of_nat (chunk_frames s)) * pitch))
           = Inr (shifted_frames s pitch)"
    and "0 < shifted_frames s pitch \<Longrightarrow> 0 < chunk_frames s"
proof -
  define x where "x = f32 (f32 (of_nat (chunk_frames s)) * pitch)"
  have fn: "f32 (of_nat (chunk_frames s)) = of_nat (chunk_frames s)"
    using assms(1) by (rule f32_of_nat)
  have x0: "0 \<le> x" unfolding x_def fn using assms(2) by (intro f32_nonneg) simp
  have "x \<le> f32 (2 ^ 22)" unfolding x_def fn using assms(3) by (rule f32_mono)
  moreover have "f32 (2 ^ 22) = 2 ^ 22" using f32_of_int [of "2 ^ 22"] by simp
  ultimately have x22: "x \<le> 2 ^ 22" by simp
  define t where "t = \<lfloor>x\<rfloor>"
  have tx: "trunc x = t" using x0 by (simp add: trunc_def t_def)
  have t0: "0 \<le> t" unfolding t_def using x0 by simp
  have "\<lfloor>x\<rfloor> \<le> \<lfloor>2 ^ 22 :: rat\<rfloor>" using x22 by (rule floor_mono)
  then have t22: "t \<le> 2 ^ 22" unfolding t_def by simp
  have sf: "shifted_frames s pitch = nat t" by (simp add: shifted_frames_def x_def [symmetric] tx)
  show "0 \<le> f32 (f32 (of_nat (chunk_frames s)) * pitch)" using x0 unfolding x_def .
  show "f32 (f32 (of_nat (chunk_frames s)) * pitch) \<le> 2 ^ 22" using x22 unfolding x_def .
  show "shifted_frames s pitch \<le> 2 ^ 22" unfolding sf using t0 t22 by (simp add: nat_le_iff)
  show "float_to_uint32 (f32 (f32 (of_nat (chunk_frames s)) * pitch))
           = Inr (shifted_frames s pitch)"
    unfolding x_def [symmetric] float_to_uint32_def tx sf using t0 t22 by simp
  show "0 < chunk_frames s" if "0 < shifted_frames s pitch"
  proof (rule ccontr)
    assume "\<not> 0 < chunk_frames s"
    then have "x = 0" by (simp add: x_def)
    then have "t = 0" by (simp add: t_def)
    with that sf show False by simp
  qed
qed

lemma do_pitch_shift_total:
  assumes "wf_chunk s" and "chunk_frames s < 2 ^ 24" and "0 \<le> pitch"
    and "of_nat (chunk_frames s) * pitch \<le> 2 ^ 22"
  shows "\<exists>result. do_pitch_shift s pitch = Inr result"
proof -
  note sb = shifted_frames_bound [OF assms(2,3,4)]
  define so where "so = shifted_frames s pitch"
  define pr where "pr = f32 (f32 (of_nat so) / f32 (of_nat (chunk_frames s)))"
  have frames: "\<exists>frame. pitch_shift_frame s pr k = Inr frame" if "k < so" for k
  proof -
    have so0: "0 < so" using that by simp
    then have n0: "0 < chunk_frames s" using sb(5) by (simp add: so_def)
    show ?thesis
      using assms(1) n0 assms(2) so0 sb(3) [folded so_def] pr_def that
      by (rule pitch_shift_frame_total)
  qed
  from pitch_shift_loop_total [of 0 so s pr "[]"] frames
  obtain out where loop: "pitch_shift_loop s pr so 0 [] = Inr out" by blast
  have lt: "\<not> 2 ^ 32 \<le> so * 4" using sb(3) [folded so_def] by simp
  show ?thesis
    unfolding do_pitch_shift_def Let_def chunk_frames_def [symmetric] sb(4) so_def [symmetric]
    using lt loop by (simp add: pr_def)
qed

lemma within_one_of_round:
  fixes x :: rat
  assumes "0 \<le> x" and "x \<le> 2 ^ 22"
  shows "\<lfloor>f32 x\<rfloor> \<le> round x" and "round x \<le> \<lfloor>f32 x\<rfloor> + 1"
proof -
  have err: "x - 1 / 4 \<le> f32 x \<and> f32 x \<le> x + 1 / 4"
  proof (cases "x = 0")
    case True
    then show ?thesis by simp
  next
    case False
    with assms have "0 < x" "x < 2 ^ 23" by simp_all
    then have "ulp x \<le> 1 / 2" by (rule ulp_small)
    with f32_abs_err [of x] show ?thesis by linarith
  qed
  have "f32 x \<le> x + 1 / 2" using err by linarith
  then show "\<lfloor>f32 x\<rfloor> \<le> round x" unfolding round_def by (rule floor_mono)
  have "x + 1 / 2 \<le> f32 x + 1" using err by linarith
  then have "\<lfloor>x + 1 / 2\<rfloor> \<le> \<lfloor>f32 x + 1\<rfloor>" by (rule floor_mono)
  then show "round x \<le> \<lfloor>f32 x\<rfloor> + 1" unfolding round_def by simp
qed

lemma f32_large_values:
  "f32 1073741824 = 1073741824" "f32 16777220 = 16777220" "f32 16777219 = 16777220"
proof -
  show "f32 1073741824 = 1073741824"
    by (rule f32_exact [of _ 1 30]) (simp_all add: power_int_def)
  show e: "f32 16777220 = 16777220"
    by (rule f32_exact [of _ 8388610 1]) (simp_all add: power_int_def)
  have u: "ulp 16777219 = 2"
  proof -
    have "floor_log2 16777219 = 24"
      by (rule floor_log2_unique) (simp_all add: power_int_def)
    then show ?thesis by (simp add: ulp_def power_int_def)
  qed
  have "round_half_even (16777219 / 2) = 8388610"
    by (simp add: round_half_even_def Let_def floor_rat_numeral)
  then show "f32 16777219 = 16777220" by (simp add: f32_def u)
qed

lemma long_source_facts:
  "wf_chunk long_source" "chunk_frames long_source = 16777220"
  "length (abuf long_source) = 67108880"
  by (simp_all add: wf_chunk_def chunk_frames_def long_source_def)

lemma long_source_no_buffer: "do_pitch_shift long_source 1 \<noteq> Inr result"
proof
  assume res: "do_pitch_shift long_source 1 = Inr result"
  have sf: "shifted_frames long_source 1 = 16777220"
    by (simp add: shifted_frames_def long_source_facts f32_large_values trunc_def)
  have pr: "pitch_real_of long_source 1 = 1"
    by (simp add: pitch_real_of_def sf long_source_facts f32_large_values)
  have i: "16777219 < shifted_frames long_source 1" unfolding sf by simp
  from do_pitch_shift_frame [OF res i] obtain frame where
    fr: "pitch_shift_frame long_source 1 16777219 = Inr frame" unfolding pr by blast
  then obtain b e la ra where wb: "window_bounds long_source 1 16777219 = Inr (b, e)"
    and ws: "window_sum (abuf long_source) b e (0, 0) = Inr (la, ra)"
    by (auto simp: pitch_shift_frame_def split: sum.splits prod.splits)
  have b: "b = 16777220"
    using window_bounds_Inr(1) [OF wb] by (simp add: f32_large_values trunc_def)
  have be: "b \<le> e" using window_bounds_Inr(3) [OF wb] by simp
  have "byte_pair (abuf long_source) (4 * b) = Inl Out_Of_Bounds"
    unfolding b by (simp add: byte_pair_def Let_def long_source_facts)
  with ws be show False by (subst (asm) window_sum.simps) simp
qed

section \<open>The claims on the pitch shifter\<close>

text \<open>
  C6. For every source that holds the \<open>alen\<close> bytes it announces, of \<open>n < 2^24\<close>
  frames, and every pitch factor \<open>p \<ge> 0\<close> with \<open>n * p \<le> 2^22\<close>, \<open>do_pitch_shift\<close>
  returns a buffer. The buffer has as many frames as the single-precision product of \<open>n\<close>
  and \<open>p\<close> truncated toward zero, and its \<open>alen\<close> is its length. This number is
  \<open>round (n * p)\<close> up to the rounding at the boundary: never more, and at most one frame
  less. Where the product is exact it is the floor of \<open>n * p\<close>.
\<close>

theorem pitch_shift_output_length:
  assumes "wf_chunk s" and "chunk_frames s < 2 ^ 24" and "0 \<le> pitch"
    and "of_nat (chunk_frames s) * pitch \<le> 2 ^ 22"
  shows "\<exists>result. do_pitch_shift s pitch = Inr result
       \<and> chunk_frames result = nat (trunc (f32 (f32 (of_nat (chunk_frames s)) * pitch)))
       \<and> length (abuf result) = 4 * chunk_frames result
       \<and> unat (alen result) = length (abuf result)
       \<and> int (chunk_frames result) \<le> round (of_nat (chunk_frames s) * pitch)
       \<and> round (of_nat (chunk_frames s) * pitch) \<le> int (chunk_frames result) + 1
       \<and> (f32 (of_nat (chunk_frames s) * pitch) = of_nat (chunk_frames s) * pitch
          \<longrightarrow> int (chunk_frames result) = \<lfloor>of_nat (chunk_frames s) * pitch\<rfloor>)"
proof -
  from do_pitch_shift_total [OF assms] obtain result where
    res: "do_pitch_shift s pitch = Inr result" ..
  define x where "x = of_nat (chunk_frames s) * pitch"
  have x0: "0 \<le> x" using assms(3) by (simp add: x_def)
  have x22: "x \<le> 2 ^ 22" using assms(4) by (simp add: x_def)
  have fn: "f32 (of_nat (chunk_frames s)) = of_nat (chunk_frames s)"
    using assms(2) by (rule f32_of_nat)
  have f0: "0 \<le> f32 x" using x0 by (rule f32_nonneg)
  note fr = chunk_frames_result [OF res]
  have a: "chunk_frames result = nat (trunc (f32 (f32 (of_nat (chunk_frames s)) * pitch)))"
    using fr by (simp add: shifted_frames_def)
  then have "chunk_frames result = nat \<lfloor>f32 x\<rfloor>" unfolding fn x_def [symmetric]
    using f0 by (simp add: trunc_def)
  then have fl: "int (chunk_frames result) = \<lfloor>f32 x\<rfloor>" using f0 by simp
  have b: "length (abuf result) = 4 * chunk_frames result"
    using do_pitch_shift_length(1) [OF res] fr by simp
  have c: "unat (alen result) = length (abuf result)"
    by (rule do_pitch_shift_length(2) [OF res])
  note w = within_one_of_round [OF x0 x22]
  have d: "int (chunk_frames result) \<le> round x" "round x \<le> int (chunk_frames result) + 1"
    unfolding fl by (rule w)+
  have e: "f32 x = x \<longrightarrow> int (chunk_frames result) = \<lfloor>x\<rfloor>" unfolding fl by simp
  from res a b c d e show ?thesis unfolding x_def by blast
qed

lemma four_frames_facts:
  "wf_chunk four_frames" "chunk_frames four_frames = 4"
  by (simp_all add: wf_chunk_def chunk_frames_def four_frames_def)

text \<open>
  Four frames at the pitch factor 15/16 give three frames, one short of
  \<open>round 3.75 = 4\<close>.
\<close>

theorem pitch_shift_output_length_witness:
  "wf_chunk four_frames \<and> chunk_frames four_frames < 2 ^ 24 \<and> (0::rat) \<le> 15 / 16
   \<and> of_nat (chunk_frames four_frames) * (15 / 16 :: rat) \<le> 2 ^ 22
   \<and> do_pitch_shift four_frames (15 / 16) = Inr shifted_three
   \<and> chunk_frames shifted_three = 3
   \<and> length (abuf shifted_three) = 12
   \<and> round (of_nat (chunk_frames four_frames) * (15 / 16) :: rat) = 4"
proof -
  have h: "chunk_frames four_frames < 2 ^ 24" "(0::rat) \<le> 15 / 16"
    "of_nat (chunk_frames four_frames) * (15 / 16 :: rat) \<le> 2 ^ 22"
    by (simp_all add: four_frames_facts)
  have r: "round (of_nat (chunk_frames four_frames) * (15 / 16) :: rat) = 4"
    by (simp add: four_frames_facts round_def floor_rat_numeral)
  from pitch_shift_output_length [OF four_frames_facts(1) h]
  obtain result where res: "do_pitch_shift four_frames (15 / 16) = Inr result"
    and l: "length (abuf result) = 4 * chunk_frames result"
    and lo: "int (chunk_frames result) \<le> round (of_nat (chunk_frames four_frames) * (15 / 16) :: rat)"
    and hi: "round (of_nat (chunk_frames four_frames) * (15 / 16) :: rat) \<le> int (chunk_frames result) + 1"
    by blast
  from res do_pitch_shift_four_frames(1) have eq: "result = shifted_three" by simp
  have c: "chunk_frames shifted_three = 3" by (simp add: chunk_frames_def shifted_three_def)
  from l have "length (abuf shifted_three) = 12" unfolding eq c by simp
  with c h r four_frames_facts(1) do_pitch_shift_four_frames(1) show ?thesis by blast
qed

text \<open>
  Beyond that range the code does not keep C6. One frame at the pitch factor \<open>2^30\<close>
  gives \<open>s_out = 2^30\<close>, and \<open>alen = s_out * 4\<close> wraps around to 0 in \<open>Uint32\<close>: the
  buffer is allocated with no bytes, and the loop writes \<open>2^30\<close> frames past it.
\<close>

theorem pitch_shift_allocation_wraps_counterexample:
  "do_pitch_shift one_frame_source 1073741824 = Inl Out_Of_Bounds
   \<and> wf_chunk one_frame_source \<and> chunk_frames one_frame_source = 1
   \<and> nat (trunc (f32 (f32 (of_nat (chunk_frames one_frame_source)) * 1073741824))) = 1073741824
   \<and> (word_of_nat (1073741824 * 4) :: 32 word) = 0"
  by (simp add: do_pitch_shift_def Let_def one_frame_source_def f32_large_values f32_values
      float_to_uint32_def trunc_def wf_chunk_def chunk_frames_def)

text \<open>
  C7 (as amended). For every source that holds the \<open>alen\<close> bytes it announces, of
  \<open>n < 2^24\<close> frames, and every pitch factor \<open>p \<ge> 0\<close> with \<open>n * p \<le> 2^22\<close>,
  \<open>do_pitch_shift\<close> returns a buffer, and each sample of its output frame \<open>i\<close> is the
  mean (the single-precision quotient of sum and count, truncated toward zero) of the input
  samples of that channel with indices in the inclusive range from \<open>begin\<close> to \<open>end\<close>,
  which lies inside the input. Here \<open>begin\<close> is \<open>i / pitch_real\<close> and \<open>end\<close> is
  \<open>(i + 1) / pitch_real\<close>, both in single precision and truncated, \<open>pitch_real\<close> is the
  single-precision ratio of the output and input frame counts, and an \<open>end\<close> that is
  positive and at or past the input length is replaced by \<open>begin\<close>, so that the window
  is that one sample. For the pitch factor 1 the output has the input's length, and each
  of its frames is the truncated mean of the input frame and its successor, the last frame
  being the last input frame.
\<close>

theorem pitch_shift_frame_mean:
  assumes "wf_chunk s" and "chunk_frames s < 2 ^ 24" and "0 \<le> pitch"
    and "of_nat (chunk_frames s) * pitch \<le> 2 ^ 22"
  shows "\<exists>result. do_pitch_shift s pitch = Inr result
     \<and> (\<forall>i < chunk_frames result.
          (let pr = pitch_real_of s pitch;
               b = nat (trunc (f32 (f32 (of_nat i) / pr)));
               e0 = nat (trunc (f32 (f32 (of_nat (i + 1)) / pr)));
               e = (if 0 < e0 \<and> chunk_frames s \<le> e0 then b else e0)
           in b \<le> e \<and> e < chunk_frames s
            \<and> left_sample (abuf result) i
                = trunc (f32 (f32 (of_int (sum_list (map (left_sample (abuf s)) [b..<Suc e])))
                              / f32 (of_nat (e - b + 1))))
            \<and> right_sample (abuf result) i
                = trunc (f32 (f32 (of_int (sum_list (map (right_sample (abuf s)) [b..<Suc e])))
                              / f32 (of_nat (e - b + 1)))))
        \<and> (pitch = 1 \<longrightarrow>
             chunk_frames result = chunk_frames s
           \<and> left_sample (abuf result) i =
                (if i + 1 < chunk_frames s
                 then c_div (left_sample (abuf s) i + left_sample (abuf s) (i + 1)) 2
                 else left_sample (abuf s) i)
           \<and> right_sample (abuf result) i =
                (if i + 1 < chunk_frames s
                 then c_div (right_sample (abuf s) i + right_sample (abuf s) (i + 1)) 2
                 else right_sample (abuf s) i)))"
proof -
  from do_pitch_shift_total [OF assms] obtain result where
    res: "do_pitch_shift s pitch = Inr result" ..
  note sb = shifted_frames_bound [OF assms(2,3,4)]
  have fr: "chunk_frames result = shifted_frames s pitch" by (rule chunk_frames_result [OF res])
  have main: "(let pr = pitch_real_of s pitch;
               b = nat (trunc (f32 (f32 (of_nat i) / pr)));
               e0 = nat (trunc (f32 (f32 (of_nat (i + 1)) / pr)));
               e = (if 0 < e0 \<and> chunk_frames s \<le> e0 then b else e0)
           in b \<le> e \<and> e < chunk_frames s
            \<and> left_sample (abuf result) i
                = trunc (f32 (f32 (of_int (sum_list (map (left_sample (abuf s)) [b..<Suc e])))
                              / f32 (of_nat (e - b + 1))))
            \<and> right_sample (abuf result) i
                = trunc (f32 (f32 (of_int (sum_list (map (right_sample (abuf s)) [b..<Suc e])))
                              / f32 (of_nat (e - b + 1)))))"
    if i: "i < chunk_frames result" for i
  proof -
    have i': "i < shifted_frames s pitch" using i fr by simp
    then have so0: "0 < shifted_frames s pitch" by simp
    then have n0: "0 < chunk_frames s" by (rule sb(5))
    have prd: "pitch_real_of s pitch
        = f32 (f32 (of_nat (shifted_frames s pitch)) / f32 (of_nat (chunk_frames s)))"
      by (simp add: pitch_real_of_def)
    from window_bounds_total [OF n0 assms(2) so0 sb(3) prd i'] obtain b e where
      wb: "window_bounds s (pitch_real_of s pitch) i = Inr (b, e)" and en: "e < chunk_frames s"
      by blast
    note wi = window_bounds_Inr(1,2) [OF wb pitch_real_nonneg]
    have en': "(let e0 = nat (trunc (f32 (f32 (of_nat (i + 1)) / pitch_real_of s pitch)))
                in if 0 < e0 \<and> chunk_frames s \<le> e0
                   then nat (trunc (f32 (f32 (of_nat i) / pitch_real_of s pitch))) else e0)
               < chunk_frames s"
      using en unfolding wi(2) wi(1) .
    show ?thesis
      unfolding Let_def
      using pitch_shift_frame_window [OF res i] en' [unfolded Let_def] by (intro conjI)
  qed
  have one: "chunk_frames result = chunk_frames s
           \<and> left_sample (abuf result) i =
                (if i + 1 < chunk_frames s
                 then c_div (left_sample (abuf s) i + left_sample (abuf s) (i + 1)) 2
                 else left_sample (abuf s) i)
           \<and> right_sample (abuf result) i =
                (if i + 1 < chunk_frames s
                 then c_div (right_sample (abuf s) i + right_sample (abuf s) (i + 1)) 2
                 else right_sample (abuf s) i)"
    if i: "i < chunk_frames result" and p: "pitch = 1" for i
    using pitch_one_frame [OF res [unfolded p] i assms(2)] by (intro conjI)
  from res main one show ?thesis by blast
qed

text \<open>
  The theorem at the pitch factor 1 on two frames: the first output sample is the mean of
  both input samples.
\<close>

theorem pitch_shift_frame_mean_witness:
  "wf_chunk two_frames \<and> chunk_frames two_frames < 2 ^ 24 \<and> (0::rat) \<le> 1
   \<and> of_nat (chunk_frames two_frames) * (1::rat) \<le> 2 ^ 22
   \<and> do_pitch_shift two_frames 1 = Inr averaged_two
   \<and> (0::nat) < chunk_frames averaged_two
   \<and> chunk_frames averaged_two = chunk_frames two_frames
   \<and> left_sample (abuf averaged_two) 0
       = c_div (left_sample (abuf two_frames) 0 + left_sample (abuf two_frames) 1) 2"
proof -
  have wf: "wf_chunk two_frames" by (simp add: wf_chunk_def two_frames_def)
  have h: "chunk_frames two_frames < 2 ^ 24" "(0::rat) \<le> 1"
    "of_nat (chunk_frames two_frames) * (1::rat) \<le> 2 ^ 22"
    by (simp_all add: two_frames_samples)
  have i: "(0::nat) < chunk_frames averaged_two" by (simp add: two_frames_samples)
  from pitch_shift_frame_mean [OF wf h] obtain result where
    res: "do_pitch_shift two_frames 1 = Inr result"
    and all: "\<forall>i < chunk_frames result.
        (1::rat) = 1 \<longrightarrow>
             chunk_frames result = chunk_frames two_frames
           \<and> left_sample (abuf result) i =
                (if i + 1 < chunk_frames two_frames
                 then c_div (left_sample (abuf two_frames) i + left_sample (abuf two_frames) (i + 1)) 2
                 else left_sample (abuf two_frames) i)"
    by blast
  from res do_pitch_shift_two_frames have eq: "result = averaged_two" by simp
  note a0 = all [unfolded eq, rule_format, OF i refl]
  from a0 have
    "chunk_frames averaged_two = chunk_frames two_frames"
    "left_sample (abuf averaged_two) 0
       = c_div (left_sample (abuf two_frames) 0 + left_sample (abuf two_frames) 1) 2"
    by (simp_all add: two_frames_samples(1))
  with wf h i do_pitch_shift_two_frames show ?thesis by blast
qed

text \<open>
  C7 as stated fails: at the pitch factor 1 the half-open window of output frame 0 holds
  the input frame 0 alone, whose left sample is 0, but the output sample is 50, the mean
  of the samples 0 and 100 of the input frames 0 and 1. And the window is not clamped to
  the input on every source: with \<open>2^24 + 4\<close> frames at the pitch factor 1 the index of
  the last output frame, \<open>2^24 + 3\<close>, rounds to \<open>2^24 + 4\<close> in single precision, so that
  \<open>begin\<close> is the input length and the frame is read past the end of the source.
\<close>

theorem pitch_one_not_identity_counterexample:
  "do_pitch_shift two_frames 1 = Inr averaged_two
   \<and> left_sample (abuf averaged_two) 0 = 50
   \<and> spec_window (chunk_frames two_frames) 1 0 = [0]
   \<and> spec_mean (left_sample (abuf two_frames)) (spec_window (chunk_frames two_frames) 1 0) = 0
   \<and> wf_chunk long_source \<and> chunk_frames long_source = 16777220
   \<and> (\<forall>result. do_pitch_shift long_source 1 \<noteq> Inr result)"
proof -
  have w: "spec_window (chunk_frames two_frames) 1 0 = [0]"
    by (simp add: spec_window_def two_frames_samples upt_rec)
  have "spec_mean (left_sample (abuf two_frames)) [0] = 0"
    by (simp add: spec_mean_def two_frames_samples)
  with w do_pitch_shift_two_frames two_frames_samples(5) long_source_facts(1,2)
    long_source_no_buffer
  show ?thesis by simp
qed

section \<open>Properties of the callback\<close>

lemma below_float_bound:
  assumes "f32 x = x" and "x < f32 y"
  shows "x < y"
proof (rule ccontr)
  assume "\<not> x < y"
  then have "f32 y \<le> f32 x" by (intro f32_mono) simp
  with assms show False by simp
qed

lemma mantissa_int_bounds:
  assumes "f32 x = x" and "0 < x"
  obtains m where "x = of_int m * ulp x" and "2 ^ 23 \<le> m" and "m < 2 ^ 24"
proof -
  from representable_grid [OF assms] obtain m where m: "x = of_int m * ulp x" ..
  have u: "ulp x \<noteq> 0" using ulp_pos [of x] by linarith
  from m have "x / ulp x = (of_int m * ulp x) / ulp x"
    by (rule arg_cong [where f = "\<lambda>t. t / ulp x"])
  with u have q: "x / ulp x = of_int m" by simp
  from mantissa_bounds [OF assms(2)] have "(2 ^ 23 :: rat) \<le> of_int m" "(of_int m :: rat) < 2 ^ 24"
    unfolding q by simp_all
  then have "(of_int (2 ^ 23) :: rat) \<le> of_int m" "(of_int m :: rat) < of_int (2 ^ 24)"
    by simp_all
  then have "2 ^ 23 \<le> m" "m < 2 ^ 24" by (simp_all only: of_int_le_iff of_int_less_iff)
  with m show thesis by (rule that)
qed

lemma representable_floor:
  assumes "f32 x = x" and "0 \<le> x"
  shows "f32 (of_int \<lfloor>x\<rfloor>) = of_int \<lfloor>x\<rfloor>"
proof (cases "x = 0")
  case True
  then show ?thesis by simp
next
  case False
  with assms(2) have x: "0 < x" by simp
  from mantissa_int_bounds [OF assms(1) x] obtain m where
    m: "x = of_int m * ulp x" and lo: "2 ^ 23 \<le> m" and hi: "m < 2 ^ 24" .
  define j where "j = floor_log2 x - 23"
  have u: "ulp x = 2 powi j" using x by (simp add: ulp_def j_def)
  show ?thesis
  proof (cases "0 \<le> j")
    case True
    then have "ulp x = of_int (2 ^ nat j)" unfolding u by (simp add: powi_nat)
    with m have "x = of_int (m * 2 ^ nat j)" by simp
    then have "of_int \<lfloor>x\<rfloor> = x" by (metis floor_of_int)
    with assms(1) show ?thesis by (simp only:)
  next
    case False
    then have "(2::rat) powi j \<le> 2 powi 0" by (intro powi_mono) simp
    then have "ulp x \<le> 1" unfolding u by simp
    moreover have "0 \<le> (of_int m :: rat)" using lo by simp
    ultimately have "of_int m * ulp x \<le> of_int m * 1" by (intro mult_left_mono)
    then have "x \<le> of_int m" using m by simp
    then have "\<lfloor>x\<rfloor> \<le> m" using floor_mono [of x "of_int m"] by simp
    moreover have "0 \<le> \<lfloor>x\<rfloor>" using assms(2) by simp
    ultimately have "\<bar>\<lfloor>x\<rfloor>\<bar> < 2 ^ 24" using hi by linarith
    then show ?thesis by (rule f32_of_int)
  qed
qed

lemma interpolation_between:
  fixes l h :: int and t :: rat
  assumes t: "0 \<le> t" "t \<le> 1"
    and l: "- 32768 \<le> l" "l < 32768" and h: "- 32768 \<le> h" "h < 32768"
  shows "of_int (min l h) \<le> f32 (f32 (f32 (of_int (h - l)) * t) + f32 (of_int l))"
    and "f32 (f32 (f32 (of_int (h - l)) * t) + f32 (of_int l)) \<le> of_int (max l h)"
proof -
  have "\<bar>h - l\<bar> < 2 ^ 24" using l h by simp
  then have d: "f32 (of_int (h - l)) = of_int (h - l)" by (rule f32_of_int)
  have "\<bar>l\<bar> < 2 ^ 24" using l by simp
  then have fl: "f32 (of_int l) = of_int l" by (rule f32_of_int)
  have "\<bar>h\<bar> < 2 ^ 24" using h by simp
  then have fh: "f32 (of_int h) = of_int h" by (rule f32_of_int)
  define p :: rat where "p = of_int (h - l) * t"
  have both: "of_int (min l h) \<le> f32 (f32 p + of_int l) \<and> f32 (f32 p + of_int l) \<le> of_int (max l h)"
  proof (cases "l \<le> h")
    case True
    then have d0: "0 \<le> (of_int (h - l) :: rat)" by simp
    have "0 \<le> p" unfolding p_def using d0 t(1) by (rule mult_nonneg_nonneg)
    then have a: "0 \<le> f32 p" by (rule f32_nonneg)
    have "p \<le> of_int (h - l) * 1" unfolding p_def using t(2) d0 by (rule mult_left_mono)
    then have "p \<le> of_int (h - l)" by simp
    then have "f32 p \<le> f32 (of_int (h - l))" by (rule f32_mono)
    then have b: "f32 p \<le> of_int (h - l)" unfolding d .
    have "of_int l \<le> f32 p + of_int l" using a by simp
    then have "f32 (of_int l) \<le> f32 (f32 p + of_int l)" by (rule f32_mono)
    then have lo: "of_int l \<le> f32 (f32 p + of_int l)" unfolding fl .
    have "f32 p + of_int l \<le> of_int h" using b by simp
    then have "f32 (f32 p + of_int l) \<le> f32 (of_int h)" by (rule f32_mono)
    then have hi: "f32 (f32 p + of_int l) \<le> of_int h" unfolding fh .
    from True have "min l h = l" "max l h = h" by simp_all
    with lo hi show ?thesis by simp
  next
    case False
    then have d0: "(of_int (h - l) :: rat) \<le> 0" by simp
    have "p \<le> 0" unfolding p_def using d0 t(1) by (rule mult_nonpos_nonneg)
    then have "f32 p \<le> f32 0" by (rule f32_mono)
    then have a: "f32 p \<le> 0" by simp
    have "t * of_int (h - l) \<ge> 1 * of_int (h - l)" using t(2) d0 by (rule mult_right_mono_neg)
    then have "of_int (h - l) \<le> p" unfolding p_def by (simp add: mult.commute)
    then have "f32 (of_int (h - l)) \<le> f32 p" by (rule f32_mono)
    then have b: "of_int (h - l) \<le> f32 p" unfolding d .
    have "f32 p + of_int l \<le> of_int l" using a by simp
    then have "f32 (f32 p + of_int l) \<le> f32 (of_int l)" by (rule f32_mono)
    then have hi: "f32 (f32 p + of_int l) \<le> of_int l" unfolding fl .
    have "of_int h \<le> f32 p + of_int l" using b by simp
    then have "f32 (of_int h) \<le> f32 (f32 p + of_int l)" by (rule f32_mono)
    then have lo: "of_int h \<le> f32 (f32 p + of_int l)" unfolding fh .
    from False have "min l h = h" "max l h = l" by simp_all
    with lo hi show ?thesis by simp
  qed
  show "of_int (min l h) \<le> f32 (f32 (f32 (of_int (h - l)) * t) + f32 (of_int l))"
    using both unfolding d fl p_def by simp
  show "f32 (f32 (f32 (of_int (h - l)) * t) + f32 (of_int l)) \<le> of_int (max l h)"
    using both unfolding d fl p_def by simp
qed

lemma float_to_sint16_interpolated:
  fixes lw hw :: "16 word"
  assumes t: "0 \<le> t" "t \<le> 1"
  shows "\<exists>w. float_to_sint16
           (f32 (f32 (f32 (of_int (sint hw - sint lw)) * t) + f32 (of_int (sint lw)))) = Inr w"
proof -
  let ?v = "f32 (f32 (f32 (of_int (sint hw - sint lw)) * t) + f32 (of_int (sint lw)))"
  have l: "- 32768 \<le> sint lw" "sint lw < 32768" using sint_ge [of lw] sint_lt [of lw] by simp_all
  have h: "- 32768 \<le> sint hw" "sint hw < 32768" using sint_ge [of hw] sint_lt [of hw] by simp_all
  from interpolation_between [OF t l h]
  have lo: "of_int (min (sint lw) (sint hw)) \<le> ?v" and hi: "?v \<le> of_int (max (sint lw) (sint hw))" .
  from trunc_mono [OF lo] have "min (sint lw) (sint hw) \<le> trunc ?v" by simp
  then have a: "- 32768 \<le> trunc ?v" using l(1) h(1) by linarith
  from trunc_mono [OF hi] have "trunc ?v \<le> max (sint lw) (sint hw)" by simp
  then have b: "trunc ?v < 32768" using l(2) h(2) by linarith
  from a b show ?thesis by (simp add: float_to_sint16_def)
qed

lemma source_sample_Inr:
  assumes wf: "wf_chunk (audio_src h)" and i: "0 \<le> i" "i < int (unat (alen (audio_src h)) div 4)"
    and e: "e = 0 \<or> e = 2"
  shows "\<exists>w. source_sample h e i = Inr w"
proof -
  define n where "n = unat (alen (audio_src h))"
  have len: "length (abuf (audio_src h)) = n" and n: "n < 2 ^ 31"
    using wf by (simp_all add: wf_chunk_def n_def)
  have "4 * (n div 4) \<le> n" by simp
  then have i4: "i * 4 + 4 \<le> int n" using i(2) unfolding n_def [symmetric] by linarith
  then have m: "int_mul i bytes_per_sample = Inr (i * 4)"
    using i(1) n by (simp add: int_mul_def bytes_per_sample_def)
  have "\<exists>w. load_sample (abuf (audio_src h)) (e + i * 4) = Inr w"
    using e i(1) i4 len by (auto simp: load_sample_def)
  then show ?thesis by (auto simp: source_sample_def m)
qed

lemma interpolate_ear_Inr:
  assumes wf: "wf_chunk (audio_src h)"
    and lo: "0 \<le> low" "low < int (unat (alen (audio_src h)) div 4)"
    and hi: "0 \<le> high" "high < int (unat (alen (audio_src h)) div 4)"
    and e: "e = 0 \<or> e = 2"
    and t: "0 \<le> current_sample_index h - f32 (of_int low)"
           "current_sample_index h - f32 (of_int low) \<le> 1"
  shows "\<exists>w. interpolate_ear h low high e = Inr w"
proof -
  from source_sample_Inr [OF wf lo e] obtain lw where lw: "source_sample h e low = Inr lw" ..
  from source_sample_Inr [OF wf hi e] obtain hw where hw: "source_sample h e high = Inr hw" ..
  have t0: "0 \<le> f32 (current_sample_index h - f32 (of_int low))" using t(1) by (rule f32_nonneg)
  have "f32 (current_sample_index h - f32 (of_int low)) \<le> f32 1" using t(2) by (rule f32_mono)
  then have t1: "f32 (current_sample_index h - f32 (of_int low)) \<le> 1" by simp
  from float_to_sint16_interpolated [OF t0 t1, of hw lw]
  show ?thesis by (simp add: interpolate_ear_def lw hw)
qed

lemma store_sample_Inr:
  assumes "0 \<le> off" "off + 2 \<le> int (length buf)"
  shows "\<exists>buf'. store_sample buf off v = Inr buf' \<and> length buf' = length buf"
  using assms by (auto simp: store_sample_def)

lemma resample_frame_Inr:
  assumes wf: "wf_chunk (audio_src h)"
    and N: "N = int (unat (alen (audio_src h)) div 4)"
    and c0: "0 \<le> current_sample_index h" and cf: "f32 (current_sample_index h) = current_sample_index h"
    and cN: "current_sample_index h < f32 (of_int N)"
    and d: "0 \<le> dst_index" "(dst_index + 1) * 4 \<le> int (length stream)"
  shows "\<exists>stream'. resample_frame h stream N dst_index = Inr stream' \<and> length stream' = length stream"
proof -
  define c where "c = current_sample_index h"
  have cltN: "c < of_int N" using below_float_bound [OF cf cN] by (simp add: c_def)
  have "unat (alen (audio_src h)) div 4 \<le> unat (alen (audio_src h))" by (rule div_le_dividend)
  moreover have "unat (alen (audio_src h)) < 2 ^ 31" using wf by (simp add: wf_chunk_def)
  ultimately have "unat (alen (audio_src h)) div 4 < 2 ^ 31" by linarith
  then have "int (unat (alen (audio_src h)) div 4) < int (2 ^ 31)" by (simp only: of_nat_less_iff)
  then have N31: "N < 2 ^ 31" unfolding N by simp
  define low where "low = \<lfloor>c\<rfloor>"
  define ce where "ce = \<lceil>c\<rceil>"
  have low0: "0 \<le> low" using c0 by (simp add: low_def c_def)
  have lowN: "low < N" using cltN by (simp add: low_def floor_less_iff)
  have ce0: "0 \<le> ce" using c0 unfolding ce_def c_def using ceiling_mono [of 0 "current_sample_index h"] by simp
  have ceN: "ce \<le> N" using cltN by (simp add: ce_def ceiling_le_iff)
  have fl: "float_to_int (of_int low) = Inr low" using low0 lowN N31 by (simp add: float_to_int_def)
  have fc: "float_to_int (of_int ce) = Inr ce" using ce0 ceN N31 by (simp add: float_to_int_def)
  define high where "high = (if ce = N then 0 else ce)"
  have high0: "0 \<le> high" using ce0 by (simp add: high_def)
  have highN: "high < N" using ceN low0 lowN by (simp add: high_def)
  have rl: "f32 (of_int low) = of_int low"
    unfolding low_def c_def using cf c0 by (rule representable_floor)
  have "of_int low \<le> current_sample_index h" by (simp add: low_def c_def)
  then have t0: "0 \<le> current_sample_index h - f32 (of_int low)" unfolding rl by simp
  have "current_sample_index h - of_int low \<le> 1" unfolding low_def c_def by linarith
  then have t1: "current_sample_index h - f32 (of_int low) \<le> 1" unfolding rl .
  from interpolate_ear_Inr [OF wf low0 lowN [unfolded N] high0 highN [unfolded N] _ t0 t1, of 0]
  obtain left where left: "interpolate_ear h low high 0 = Inr left" by auto
  from interpolate_ear_Inr [OF wf low0 lowN [unfolded N] high0 highN [unfolded N] _ t0 t1, of 2]
  obtain right where right: "interpolate_ear h low high 2 = Inr right" by auto
  from store_sample_Inr [of "dst_index * bytes_per_sample" stream left] d
  obtain s1 where s1: "store_sample stream (dst_index * bytes_per_sample) left = Inr s1"
    and l1: "length s1 = length stream" by (auto simp: bytes_per_sample_def)
  from store_sample_Inr [of "dst_index * bytes_per_sample + 2" s1 right] d l1
  obtain s2 where s2: "store_sample s1 (dst_index * bytes_per_sample + 2) right = Inr s2"
    and l2: "length s2 = length s1" by (auto simp: bytes_per_sample_def)
  have "resample_frame h stream N dst_index = Inr s2"
    unfolding resample_frame_def c_def [symmetric] low_def [symmetric] ce_def [symmetric]
    by (simp add: fl fc high_def [symmetric] left s1 right s2 Let_def)
  with l1 l2 show ?thesis by simp
qed

lemma advance_position_inv:
  assumes c0: "0 \<le> current_sample_index h" and s: "0 \<le> s"
    and cN: "current_sample_index h < f32 (of_int N)"
  shows "0 \<le> current_sample_index (advance_position s N h)"
    and "f32 (current_sample_index (advance_position s N h))
           = current_sample_index (advance_position s N h)"
    and "audio_src (advance_position s N h) = audio_src h"
    and "loops_remaining (advance_position s N h) \<le> loops_remaining h"
    and "loops_remaining h < 0 \<Longrightarrow> loops_remaining (advance_position s N h) = loops_remaining h"
    and "0 \<le> loops_remaining h \<Longrightarrow> - 1 \<le> loops_remaining (advance_position s N h)"
proof -
  define c' where "c' = f32 (current_sample_index h + f32 (1 * s))"
  define y where "y = f32 (of_int N)"
  have y: "0 < y" using c0 cN by (simp add: y_def)
  have fy: "f32 y = y" by (simp add: y_def f32_idem)
  have "0 \<le> f32 (1 * s)" using s by (intro f32_nonneg) simp
  then have "0 \<le> current_sample_index h + f32 (1 * s)" using c0 by simp
  then have c'0: "0 \<le> c'" unfolding c'_def by (rule f32_nonneg)
  have fc': "f32 c' = c'" by (simp add: c'_def f32_idem)
  have q0: "0 \<le> c' / y" using c'0 y by simp
  have fm: "fmodf c' y = c' - y * of_int \<lfloor>c' / y\<rfloor>"
    by (simp add: fmodf_def trunc_nonneg [OF q0])
  have r0: "0 \<le> fmodf c' y" unfolding fm using y by (rule remainder_bounds(1))
  have rf: "f32 (fmodf c' y) = fmodf c' y" if "y \<le> c'"
    unfolding fm using fc' fy y that by (rule remainder_representable)
  have ap: "advance_position s N h =
      (if loops_remaining h \<ge> 0 \<and> c' \<ge> y
       then h\<lparr>current_sample_index := fmodf c' y, loops_remaining := loops_remaining h - 1\<rparr>
       else h\<lparr>current_sample_index := c'\<rparr>)"
    by (simp add: advance_position_def Let_def c'_def y_def)
  show "0 \<le> current_sample_index (advance_position s N h)" using r0 c'0 by (simp add: ap)
  show "f32 (current_sample_index (advance_position s N h))
           = current_sample_index (advance_position s N h)" using rf fc' by (simp add: ap)
  show "audio_src (advance_position s N h) = audio_src h" by (simp add: ap)
  show "loops_remaining (advance_position s N h) \<le> loops_remaining h" by (simp add: ap)
  show "loops_remaining h < 0 \<Longrightarrow> loops_remaining (advance_position s N h) = loops_remaining h"
    by (simp add: ap)
  show "0 \<le> loops_remaining h \<Longrightarrow> - 1 \<le> loops_remaining (advance_position s N h)"
    by (simp add: ap)
qed

lemma resample_loop_total:
  assumes "wf_chunk (audio_src h)" and "N = int (unat (alen (audio_src h)) div 4)"
    and "0 \<le> s" and "0 \<le> i" and "n_dst * 4 \<le> int (length stream)"
    and "0 \<le> current_sample_index h" and "f32 (current_sample_index h) = current_sample_index h"
  shows "\<exists>h' stream'. resample_loop s N n_dst i h stream = Inr (h', stream')
           \<and> audio_src h' = audio_src h \<and> length stream' = length stream
           \<and> 0 \<le> current_sample_index h' \<and> f32 (current_sample_index h') = current_sample_index h'
           \<and> loops_remaining h' \<le> loops_remaining h
           \<and> (loops_remaining h < 0 \<longrightarrow> loops_remaining h' = loops_remaining h)
           \<and> (0 \<le> loops_remaining h \<longrightarrow> - 1 \<le> loops_remaining h')"
  using assms
proof (induction s N n_dst i h stream rule: resample_loop.induct)
  case (1 s N n_dst i h stream)
  show ?case
  proof (cases "i < n_dst \<and> current_sample_index h < f32 (of_int N)")
    case False
    have "resample_loop s N n_dst i h stream = Inr (h, stream)"
      by (subst resample_loop.simps) (simp only: False if_False)
    then show ?thesis using "1.prems"(6,7) by simp
  next
    case True
    then have d: "(i + 1) * 4 \<le> int (length stream)" using "1.prems"(5) by auto
    from resample_frame_Inr [OF "1.prems"(1,2,6,7) conjunct2 [OF True] "1.prems"(4) d]
    obtain st where fr: "resample_frame h stream N i = Inr st" and ln: "length st = length stream"
      by blast
    let ?h = "advance_position s N h"
    note adv = advance_position_inv [OF "1.prems"(6,3) conjunct2 [OF True]]
    have "\<exists>h' stream'. resample_loop s N n_dst (i + 1) ?h st = Inr (h', stream')
           \<and> audio_src h' = audio_src ?h \<and> length stream' = length st
           \<and> 0 \<le> current_sample_index h' \<and> f32 (current_sample_index h') = current_sample_index h'
           \<and> loops_remaining h' \<le> loops_remaining ?h
           \<and> (loops_remaining ?h < 0 \<longrightarrow> loops_remaining h' = loops_remaining ?h)
           \<and> (0 \<le> loops_remaining ?h \<longrightarrow> - 1 \<le> loops_remaining h')"
      using "1.prems" adv(1,2,3) ln by (intro "1.IH" [OF True fr]) simp_all
    then obtain h' stream' where r: "resample_loop s N n_dst (i + 1) ?h st = Inr (h', stream')"
      and p: "audio_src h' = audio_src ?h" "length stream' = length st"
        "0 \<le> current_sample_index h'" "f32 (current_sample_index h') = current_sample_index h'"
        "loops_remaining h' \<le> loops_remaining ?h"
        "loops_remaining ?h < 0 \<longrightarrow> loops_remaining h' = loops_remaining ?h"
        "0 \<le> loops_remaining ?h \<longrightarrow> - 1 \<le> loops_remaining h'"
      by blast
    have e: "resample_loop s N n_dst i h stream = Inr (h', stream')"
      by (subst resample_loop.simps) (simp only: True fr sum.case r, simp)
    have l1: "loops_remaining h' \<le> loops_remaining h" using p(5) adv(4) by linarith
    have l2: "loops_remaining h < 0 \<longrightarrow> loops_remaining h' = loops_remaining h"
      using p(6) adv(5) by auto
    have l3: "0 \<le> loops_remaining h \<longrightarrow> - 1 \<le> loops_remaining h'"
      using p(5,6,7) adv(4,5,6) by (cases "0 \<le> loops_remaining ?h") auto
    show ?thesis using e p(1,2,3,4) adv(3) ln l1 l2 l3 by simp
  qed
qed









lemma c_div_frames:
  assumes "0 \<le> len"
  shows "0 \<le> c_div len bytes_per_sample" and "c_div len bytes_per_sample * 4 \<le> len"
    and "c_div len bytes_per_sample = c_div len 4"
proof -
  have e: "c_div len bytes_per_sample = len div 4"
    using assms by (simp add: c_div_def bytes_per_sample_def)
  show "0 \<le> c_div len bytes_per_sample" unfolding e using assms by simp
  have "len div 4 * 4 + len mod 4 = len" by simp
  moreover have "0 \<le> len mod 4" by simp
  ultimately show "c_div len bytes_per_sample * 4 \<le> len" unfolding e by linarith
  show "c_div len bytes_per_sample = c_div len 4" by (simp add: bytes_per_sample_def)
qed



















lemma last_loop_facts:
  "wf_chunk (audio_src last_loop)" "int (unat (alen (audio_src last_loop)) div 4) = 2"
  "current_sample_index last_loop = 0" "loops_remaining last_loop = 0"
  "length mixer_stream = 16"
  by (simp_all add: last_loop_def two_frame_source_def wf_chunk_def mixer_stream_def)



text \<open>
  C4. For every source that holds the \<open>alen\<close> bytes it announces, every position that
  the callback can leave behind (not negative, a single-precision number), every speed
  that is not negative (speeds above one included) and every buffer, the loop of the
  callback returns a result. A read of a source sample outside the source buffer is the
  error \<open>Out_Of_Bounds\<close> of \<open>load_sample\<close>, so every read, at the low index and at the
  high index after its redirection to 0, lies inside the source buffer, across every
  wrap. The position it leaves satisfies the same conditions again. The same holds of
  \<open>slowed_time_effect\<close>, whose speed is 0.25 or 1.
\<close>

theorem resample_reads_in_bounds:
  assumes "wf_chunk (audio_src h)"
    and "0 \<le> current_sample_index h" and "f32 (current_sample_index h) = current_sample_index h"
    and "0 \<le> loops_remaining h"
    and "0 \<le> s" and "0 \<le> len" and "len \<le> int (length stream)"
  shows "(\<exists>h' stream'.
            resample_loop s (int (unat (alen (audio_src h)) div 4)) (c_div len bytes_per_sample) 0
              h stream = Inr (h', stream')
            \<and> audio_src h' = audio_src h \<and> length stream' = length stream
            \<and> 0 \<le> current_sample_index h'
            \<and> f32 (current_sample_index h') = current_sample_index h')
       \<and> (\<exists>h' stream' halts.
            slowed_time_effect avatar_speed avatar_moves channel stream len h
              = Inr (h', stream', halts)
            \<and> audio_src h' = audio_src h \<and> length stream' = length stream
            \<and> 0 \<le> current_sample_index h'
            \<and> f32 (current_sample_index h') = current_sample_index h'
            \<and> (halts = []) = (0 \<le> loops_remaining h'))"
proof -
  note fr = c_div_frames [OF assms(6)]
  have st: "c_div len bytes_per_sample * 4 \<le> int (length stream)" using fr(2) assms(7) by linarith
  have tot: "\<exists>h' stream'.
            resample_loop t (int (unat (alen (audio_src h)) div 4)) (c_div len bytes_per_sample) 0
              h stream = Inr (h', stream')
            \<and> audio_src h' = audio_src h \<and> length stream' = length stream
            \<and> 0 \<le> current_sample_index h'
            \<and> f32 (current_sample_index h') = current_sample_index h'" if "0 \<le> t" for t
    using resample_loop_total [OF assms(1) refl that order_refl st assms(2,3)] by blast
  define p where
    "p = (if is_time_slowed avatar_speed avatar_moves then sound_speed_factor else 1)"
  have "0 \<le> p" by (simp add: p_def sound_speed_factor_def)
  from tot [OF this] obtain h' stream' where
    r: "resample_loop p (int (unat (alen (audio_src h)) div 4)) (c_div len bytes_per_sample) 0
          h stream = Inr (h', stream')"
    and q: "audio_src h' = audio_src h" "length stream' = length stream"
      "0 \<le> current_sample_index h'" "f32 (current_sample_index h') = current_sample_index h'"
    by blast
  have "slowed_time_effect avatar_speed avatar_moves channel stream len h
          = Inr (h', stream', if loops_remaining h' < 0 then [channel] else [])"
    unfolding slowed_time_effect_def Let_def p_def [symmetric] using assms(4) by (simp add: r)
  with q have "\<exists>h' stream' halts.
            slowed_time_effect avatar_speed avatar_moves channel stream len h
              = Inr (h', stream', halts)
            \<and> audio_src h' = audio_src h \<and> length stream' = length stream
            \<and> 0 \<le> current_sample_index h'
            \<and> f32 (current_sample_index h') = current_sample_index h'
            \<and> (halts = []) = (0 \<le> loops_remaining h')"
    by auto
  with tot [OF assms(5)] show ?thesis by blast
qed

text \<open>
  The theorem at speed 2 on a source of two frames and a buffer of four frames.
\<close>

theorem resample_reads_in_bounds_witness:
  "wf_chunk (audio_src last_loop)
   \<and> (\<exists>h' stream'. resample_loop 2 2 4 0 last_loop mixer_stream = Inr (h', stream')
        \<and> length stream' = 16)
   \<and> (\<exists>h' stream' halts. slowed_time_effect 100 0 7 mixer_stream 16 last_loop
        = Inr (h', stream', halts) \<and> length stream' = 16)"
proof -
  have h: "0 \<le> current_sample_index last_loop"
    "f32 (current_sample_index last_loop) = current_sample_index last_loop"
    "0 \<le> loops_remaining last_loop" "(0::rat) \<le> 2" "(0::int) \<le> 16"
    "(16::int) \<le> int (length mixer_stream)"
    using last_loop_facts by simp_all
  have n: "c_div 16 bytes_per_sample = 4" by (simp add: c_div_def bytes_per_sample_def)
  note th = resample_reads_in_bounds [OF last_loop_facts(1) h, of 100 0 7,
      unfolded last_loop_facts(2,5) n]
  from th have a: "\<exists>h' stream'. resample_loop 2 2 4 0 last_loop mixer_stream = Inr (h', stream')
        \<and> length stream' = 16" by blast
  from th have b: "\<exists>h' stream' halts. slowed_time_effect 100 0 7 mixer_stream 16 last_loop
        = Inr (h', stream', halts) \<and> length stream' = 16" by blast
  from a b last_loop_facts(1) show ?thesis by blast
qed








end
